theory Spec2Isabelle
  imports Main "HOL-Library.AList"
begin

section \<open>Data model (core/types.ts)\<close>

text \<open>
  \<^verbatim>\<open>enum RuleDirection { Outgoing, Incoming, Both }\<close>
\<close>

datatype RuleDirection = Outgoing | Incoming | Both

text \<open>
  \<^verbatim>\<open>interface Rule<T> { direction?: RuleDirection; match: (s: T, t: T) => boolean;
                       targetFilter?: (t: T) => boolean }\<close>
  The optional members are options: \<open>None\<close> is the absent member.
\<close>

record 'd Rule =
  direction :: "RuleDirection option"
  match :: "'d \<Rightarrow> 'd \<Rightarrow> bool"
  targetFilter :: "('d \<Rightarrow> bool) option"

text \<open>
  \<^verbatim>\<open>interface Node<T> { id: string; data: T; rules: readonly Rule<T>[] }\<close>
  The member \<open>id\<close> is called \<open>node_id\<close>, since \<open>id\<close> is the identity function of HOL.
\<close>

record 'd Node =
  node_id :: string
  data :: 'd
  rules :: "'d Rule list"

text \<open>
  Nodes are JavaScript objects: the graph store, the manager and the traversal compare them
  by reference (\<^verbatim>\<open>other === node\<close>, \<^verbatim>\<open>Set<Node>\<close>, \<^verbatim>\<open>Map<Node, Set<Node>>\<close>), and
  \<^verbatim>\<open>node.data = newData\<close> updates the one object that the store also holds. A node object
  is therefore a reference into an explicit store of objects.
\<close>

type_synonym ref = nat

section \<open>The graph store\<close>

text \<open>
  \<^verbatim>\<open>class Network<T> extends Graph<Node<T>> { }\<close> adds nothing to the class \<^verbatim>\<open>Graph\<close> of the
  package graph-data-structure, whose members are \<^verbatim>\<open>nodes: Set<Node>\<close> and
  \<^verbatim>\<open>edges: Map<Node, Set<Node>>\<close>. A JavaScript \<^verbatim>\<open>Set\<close> and \<^verbatim>\<open>Map\<close> iterate in insertion
  order, so the set is a list without repetition and the map an association list.
\<close>

record Network =
  nodes :: "ref list"
  edges :: "(ref \<times> ref list) list"

text \<open>\<^verbatim>\<open>Set.prototype.add\<close> and \<^verbatim>\<open>Set.prototype.delete\<close> on the list of a set.\<close>

definition Set_add :: "'a \<Rightarrow> 'a list \<Rightarrow> 'a list" where
  "Set_add x xs = (if x \<in> set xs then xs else xs @ [x])"

definition Set_delete :: "'a \<Rightarrow> 'a list \<Rightarrow> 'a list" where
  "Set_delete x xs = removeAll x xs"

text \<open>
  The class \<^verbatim>\<open>Graph\<close> is imported by core/types.ts from the package and is no file of the
  repository. The spec (sections 1 and 3) asks of the store node insertion and removal,
  directed edge insertion and removal and adjacency lookup by node, with set semantics:
  inserting a present edge is a no-op and no reverse edge is implied. The operations
  below are those, as the package has them.
\<close>

text \<open>
  Modelled from the spec: \<^verbatim>\<open>Graph.adjacent(n)\<close>, missing with the package. It is
  \<^verbatim>\<open>edges.get(n)\<close>, undefined for a node without an entry (\<open>bfs\<close> tests for that).
\<close>

definition adjacent :: "Network \<Rightarrow> ref \<Rightarrow> ref list option" where
  "adjacent g n = map_of (edges g) n"

text \<open>
  Modelled from the spec: \<^verbatim>\<open>Graph.addNode(n)\<close>, missing with the package. It adds \<open>n\<close>
  to \<open>nodes\<close> and gives it an empty adjacency set when it has none (the tests read
  \<^verbatim>\<open>adjacent(a)!.size\<close> as 0 for a node without edges).
\<close>

definition addNode :: "Network \<Rightarrow> ref \<Rightarrow> Network" where
  "addNode g n =
     g\<lparr>nodes := Set_add n (nodes g),
       edges := (case map_of (edges g) n of
                   None \<Rightarrow> AList.update n [] (edges g)
                 | Some _ \<Rightarrow> edges g)\<rparr>"

text \<open>
  Modelled from the spec: \<^verbatim>\<open>Graph.removeNode(n)\<close>, missing with the package. It deletes
  the adjacency set of \<open>n\<close>, deletes \<open>n\<close> from \<open>nodes\<close> and from every other adjacency
  set: the package documents that it also removes all edges connected to the node,
  incoming and outgoing, and the manager's \<open>removeNode\<close>, documented as removing the node
  "and its touching edges", calls nothing else.
\<close>

definition Graph_removeNode :: "Network \<Rightarrow> ref \<Rightarrow> Network" where
  "Graph_removeNode g n =
     g\<lparr>nodes := Set_delete n (nodes g),
       edges := map (\<lambda>(k, adj). (k, Set_delete n adj)) (AList.delete n (edges g))\<rparr>"

text \<open>
  Modelled from the spec: \<^verbatim>\<open>Graph.addEdge(s, t)\<close>, missing with the package. It calls
  \<^verbatim>\<open>addNode(s)\<close> and \<^verbatim>\<open>addNode(t)\<close> and adds \<open>t\<close> to the adjacency set of \<open>s\<close> (the
  traversal tests wire \<^verbatim>\<open>a->b->c->d\<close> with it); adding a present edge changes nothing.
\<close>

definition addEdge :: "Network \<Rightarrow> ref \<Rightarrow> ref \<Rightarrow> Network" where
  "addEdge g s t =
     (let g1 = addNode g s;
          g2 = addNode g1 t
      in case adjacent g2 s of
           None \<Rightarrow> g2
         | Some adj \<Rightarrow> g2\<lparr>edges := AList.update s (Set_add t adj) (edges g2)\<rparr>)"

text \<open>
  Modelled from the spec: \<^verbatim>\<open>Graph.removeEdge(s, t)\<close>, missing with the package. It is
  \<^verbatim>\<open>edges.get(s)?.delete(t)\<close>: the one direction, and nothing for a node without entry.
\<close>

definition removeEdge :: "Network \<Rightarrow> ref \<Rightarrow> ref \<Rightarrow> Network" where
  "removeEdge g s t =
     (case adjacent g s of
        None \<Rightarrow> g
      | Some adj \<Rightarrow> g\<lparr>edges := AList.update s (Set_delete t adj) (edges g)\<rparr>)"

text \<open>The edge \<open>s \<rightarrow> t\<close> is present: \<open>t\<close> is in the adjacency set of \<open>s\<close>.\<close>

definition hasEdge :: "Network \<Rightarrow> ref \<Rightarrow> ref \<Rightarrow> bool" where
  "hasEdge g s t = (case adjacent g s of None \<Rightarrow> False | Some adj \<Rightarrow> t \<in> set adj)"

section \<open>The handshake (NetworkManager.tryHandshake)\<close>

text \<open>\<^verbatim>\<open>rule.direction ?? RuleDirection.Both\<close>\<close>

definition dirOf :: "'d Rule \<Rightarrow> RuleDirection" where
  "dirOf r = (case direction r of None \<Rightarrow> Both | Some d \<Rightarrow> d)"

text \<open>
  The inner loop of \<open>tryHandshake\<close>, over \<^verbatim>\<open>target.rules\<close>: \<open>True\<close> is its
  \<^verbatim>\<open>return true\<close>, \<open>False\<close> is falling out of the loop.
\<close>

fun acceptLoop :: "'d Node \<Rightarrow> 'd Node \<Rightarrow> 'd Rule list \<Rightarrow> bool" where
  "acceptLoop source target [] = False"
| "acceptLoop source target (tRule # ts) =
     (if dirOf tRule = Outgoing then acceptLoop source target ts
      else if \<not> match tRule (data target) (data source) then acceptLoop source target ts
      else True)"

text \<open>The outer loop, over \<^verbatim>\<open>source.rules\<close>.\<close>

fun initiateLoop :: "'d Node \<Rightarrow> 'd Node \<Rightarrow> 'd Rule list \<Rightarrow> bool" where
  "initiateLoop source target [] = False"
| "initiateLoop source target (sRule # ss) =
     (if dirOf sRule = Incoming then initiateLoop source target ss
      else if (case targetFilter sRule of None \<Rightarrow> False | Some f \<Rightarrow> \<not> f (data target))
        then initiateLoop source target ss
      else if \<not> match sRule (data source) (data target) then initiateLoop source target ss
      else if acceptLoop source target (rules target) then True
      else initiateLoop source target ss)"

definition tryHandshake :: "'d Node \<Rightarrow> 'd Node \<Rightarrow> bool" where
  "tryHandshake source target = initiateLoop source target (rules source)"

text \<open>The two sides of the handshake, as section 4.1 of the spec words them.\<close>

definition initiates :: "'d Rule \<Rightarrow> 'd Node \<Rightarrow> 'd Node \<Rightarrow> bool" where
  "initiates r source target =
     ((dirOf r = Outgoing \<or> dirOf r = Both)
      \<and> (case targetFilter r of None \<Rightarrow> True | Some f \<Rightarrow> f (data target))
      \<and> match r (data source) (data target))"

definition accepts :: "'d Rule \<Rightarrow> 'd Node \<Rightarrow> 'd Node \<Rightarrow> bool" where
  "accepts r target source =
     ((dirOf r = Incoming \<or> dirOf r = Both) \<and> match r (data target) (data source))"

section \<open>The manager (core/manager.ts)\<close>

text \<open>
  The state that the manager's methods work on: the store of node objects, the next unused
  reference (a new object is distinct from every existing one) and the manager's
  \<^verbatim>\<open>network\<close> member.
\<close>

record 'd world =
  heap :: "ref \<Rightarrow> 'd Node"
  fresh :: ref
  network :: Network

text \<open>
  \<^verbatim>\<open>new NetworkManager<T>()\<close>: an empty network. The objects at unused references are
  never read; \<open>h\<close> supplies them.
\<close>

definition newManager :: "(ref \<Rightarrow> 'd Node) \<Rightarrow> 'd world" where
  "newManager h = \<lparr>heap = h, fresh = 0, network = \<lparr>nodes = [], edges = []\<rparr>\<rparr>"

text \<open>A thrown \<^verbatim>\<open>Error\<close> carries its message.\<close>

datatype error = Error string

text \<open>
  A method returns what it returns or throws, together with the state it leaves behind,
  so that the state after a throw is part of the result.
\<close>

type_synonym ('a, 'd) result = "(error + 'a) \<times> 'd world"

text \<open>\<^verbatim>\<open>findNode(id)\<close>: the first node of \<^verbatim>\<open>network.nodes\<close> with that id.\<close>

definition findNode :: "'d world \<Rightarrow> string \<Rightarrow> ref option" where
  "findNode w i = find (\<lambda>n. node_id (heap w n) = i) (nodes (network w))"

definition getNode :: "'d world \<Rightarrow> string \<Rightarrow> ref option" where
  "getNode w i = findNode w i"

text \<open>
  The loop \<^verbatim>\<open>for (const other of this.network.nodes)\<close> that \<open>createNode\<close> and
  \<open>updateNodeData\<close> both end with: two independent handshakes for every other node.
  It runs over the nodes present when it starts; \<open>addEdge\<close> adds no node during it, since
  both ends are nodes already.
\<close>

fun sweep :: "ref \<Rightarrow> ref list \<Rightarrow> 'd world \<Rightarrow> 'd world" where
  "sweep node [] w = w"
| "sweep node (other # rest) w =
     (if other = node then sweep node rest w
      else
        let w1 = (if tryHandshake (heap w node) (heap w other)
                  then w\<lparr>network := addEdge (network w) node other\<rparr> else w);
            w2 = (if tryHandshake (heap w1 other) (heap w1 node)
                  then w1\<lparr>network := addEdge (network w1) other node\<rparr> else w1)
        in sweep node rest w2)"

definition createNode :: "string \<Rightarrow> 'd \<Rightarrow> 'd Rule list \<Rightarrow> 'd world \<Rightarrow> (ref, 'd) result" where
  "createNode i d rs w =
     (if i = [] then (Inl (Error ''Id is required''), w)
      else if findNode w i \<noteq> None then (Inl (Error (''Duplicate node id: '' @ i)), w)
      else
        let node = fresh w;
            w1 = w\<lparr>heap := (heap w)(node := \<lparr>node_id = i, data = d, rules = rs\<rparr>),
                   fresh := Suc node\<rparr>;
            w2 = w1\<lparr>network := addNode (network w1) node\<rparr>
        in (Inr node, sweep node (nodes (network w2)) w2))"

definition removeNode :: "string \<Rightarrow> 'd world \<Rightarrow> (unit, 'd) result" where
  "removeNode i w =
     (case findNode w i of
        None \<Rightarrow> (Inr (), w)
      | Some node \<Rightarrow> (Inr (), w\<lparr>network := Graph_removeNode (network w) node\<rparr>))"

text \<open>
  The first loop of \<open>updateNodeData\<close>, over the copy \<^verbatim>\<open>[...this.network.adjacent(node) ?? []]\<close>.
\<close>

fun unlink :: "ref \<Rightarrow> ref list \<Rightarrow> Network \<Rightarrow> Network" where
  "unlink node [] g = g"
| "unlink node (adj # rest) g =
     unlink node rest (removeEdge (removeEdge g node adj) adj node)"

definition updateNodeData :: "string \<Rightarrow> 'd \<Rightarrow> 'd world \<Rightarrow> (unit, 'd) result" where
  "updateNodeData i newData w =
     (case findNode w i of
        None \<Rightarrow> (Inl (Error (''No such node: '' @ i)), w)
      | Some node \<Rightarrow>
          let adjacentNodes = (case adjacent (network w) node of None \<Rightarrow> [] | Some adj \<Rightarrow> adj);
              w1 = w\<lparr>network := unlink node adjacentNodes (network w)\<rparr>;
              w2 = w1\<lparr>heap := (heap w1)(node := (heap w1 node)\<lparr>data := newData\<rparr>)\<rparr>
          in (Inr (), sweep node (nodes (network w2)) w2))"

subsection \<open>Notions for the theorems about the manager\<close>

text \<open>
  A state as the JavaScript run time guarantees it: the objects that the network mentions,
  as nodes or as ends of edges, exist, so an object created next is none of them.
\<close>

definition wellFormed :: "'d world \<Rightarrow> bool" where
  "wellFormed w =
     ((\<forall>n \<in> set (nodes (network w)). n < fresh w)
      \<and> (\<forall>a b. hasEdge (network w) a b \<longrightarrow> a < fresh w \<and> b < fresh w))"

text \<open>
  The invariant of section 4.2 of the spec: the edges are exactly those that the handshake
  justifies between two different nodes of the network, for the data the nodes have.
\<close>

definition consistent :: "'d world \<Rightarrow> bool" where
  "consistent w =
     (\<forall>a b. hasEdge (network w) a b =
        (a \<in> set (nodes (network w)) \<and> b \<in> set (nodes (network w)) \<and> a \<noteq> b
         \<and> tryHandshake (heap w a) (heap w b)))"

text \<open>The node object that \<^verbatim>\<open>createNode(id, data, rules)\<close> makes.\<close>

definition made :: "string \<Rightarrow> 'd \<Rightarrow> 'd Rule list \<Rightarrow> 'd Node" where
  "made i d rs = \<lparr>node_id = i, data = d, rules = rs\<rparr>"

text \<open>
  The edge from the node of id \<open>x\<close> to the node of id \<open>y\<close>, both looked up as
  \<open>getNode\<close> does.
\<close>

definition edgeById :: "'d world \<Rightarrow> string \<Rightarrow> string \<Rightarrow> bool" where
  "edgeById w x y =
     (case findNode w x of
        None \<Rightarrow> False
      | Some a \<Rightarrow> (case findNode w y of None \<Rightarrow> False | Some b \<Rightarrow> hasEdge (network w) a b))"

text \<open>Two creations in a row: the node of id \<open>i1\<close> first, the node of id \<open>i2\<close> second.\<close>

definition createBoth :: "string \<Rightarrow> 'd \<Rightarrow> 'd Rule list \<Rightarrow> string \<Rightarrow> 'd \<Rightarrow> 'd Rule list
    \<Rightarrow> 'd world \<Rightarrow> 'd world" where
  "createBoth i1 d1 rs1 i2 d2 rs2 w = snd (createNode i2 d2 rs2 (snd (createNode i1 d1 rs1 w)))"

section \<open>Breadth-first search (algorithms/bfs.ts)\<close>

text \<open>
  \<^verbatim>\<open>interface BFSOptions<T> { visit?; expand?; maxDepth? }\<close>.
  A callback receives the node object, here its reference (a callback that reads the
  object closes over the store, which \<open>bfs\<close> never writes), and the depth.
  Both callbacks are closures of the caller. \<open>visit\<close> is called for its effect (the
  tests push to an array in it), so it transforms a state \<open>'v\<close> of the caller; its
  result \<^verbatim>\<open>void | boolean\<close> is \<open>None\<close> for no value. \<open>expand\<close> is asked for a
  decision, which may depend on what \<open>visit\<close> has written: it reads that state.
  The network is not part of that state: a traversal is not interleaved with mutation
  (section 5 of the spec). \<open>maxDepth\<close> is a number that the code compares with the
  depth, here an integer.
\<close>

record 'v BFSOptions =
  visit :: "(ref \<Rightarrow> nat \<Rightarrow> 'v \<Rightarrow> bool option \<times> 'v) option"
  expand :: "(ref \<Rightarrow> nat \<Rightarrow> 'v \<Rightarrow> bool) option"
  maxDepth :: "int option"

text \<open>\<^verbatim>\<open>bfs(network, start)\<close> without options: \<^verbatim>\<open>options || {}\<close>.\<close>

definition noOptions :: "'v BFSOptions" where
  "noOptions = \<lparr>visit = None, expand = None, maxDepth = None\<rparr>"

datatype start = StartNode ref | StartId string

definition findNodeById :: "'d world \<Rightarrow> string \<Rightarrow> ref option" where
  "findNodeById w i = find (\<lambda>n. node_id (heap w n) = i) (nodes (network w))"

text \<open>
  The loop \<^verbatim>\<open>for (const next of adj)\<close>: every neighbour not yet in \<open>visited\<close> is added to
  \<open>visited\<close> and pushed on the queue with the depth \<open>d\<close> of its level.
\<close>

fun enqueue :: "ref list \<Rightarrow> nat \<Rightarrow> ref list \<Rightarrow> (ref \<times> nat) list
    \<Rightarrow> ref list \<times> (ref \<times> nat) list" where
  "enqueue [] d visited queue = (visited, queue)"
| "enqueue (next # adj) d visited queue =
     (if next \<in> set visited then enqueue adj d visited queue
      else enqueue adj d (Set_add next visited) (queue @ [(next, d)]))"

text \<open>
  One run of the body of \<^verbatim>\<open>while (queue.length)\<close> for the item \<open>(node, depth)\<close> that
  \<^verbatim>\<open>queue.shift()\<close> took off the queue, \<open>queue\<close> being the rest: \<open>Inl\<close> is the
  \<^verbatim>\<open>return order\<close> inside the loop, \<open>Inr\<close> the state in which the loop goes on.
\<close>

definition bfsBody :: "Network \<Rightarrow> 'v BFSOptions \<Rightarrow> ref list \<Rightarrow> ref list \<Rightarrow> ref \<times> nat
    \<Rightarrow> (ref \<times> nat) list \<Rightarrow> 'v
    \<Rightarrow> (ref list \<times> 'v) + (ref list \<times> ref list \<times> (ref \<times> nat) list \<times> 'v)" where
  "bfsBody g opts visited order item queue st =
     (let node = fst item; depth = snd item;
          order1 = order @ [node];
          called = (case visit opts of None \<Rightarrow> (None, st) | Some f \<Rightarrow> f node depth st);
          res = fst called; st1 = snd called
      in if visit opts \<noteq> None \<and> res = Some False then Inl (order1, st1)
         else if (case maxDepth opts of None \<Rightarrow> False | Some m \<Rightarrow> int depth \<ge> m)
           then Inr (visited, order1, queue, st1)
         else if (case expand opts of None \<Rightarrow> False | Some e \<Rightarrow> \<not> e node depth st1)
           then Inr (visited, order1, queue, st1)
         else case adjacent g node of
                None \<Rightarrow> Inr (visited, order1, queue, st1)
              | Some adj \<Rightarrow>
                  (let vq = enqueue adj (depth + 1) visited queue
                   in Inr (fst vq, order1, snd vq, st1)))"

text \<open>What the termination of the loop is measured by: the nodes that can still be
  enqueued (those of some adjacency set that are not visited yet) and the queue.\<close>

definition targets :: "Network \<Rightarrow> ref set" where
  "targets g = (\<Union>e \<in> set (edges g). set (snd e))"

definition bfsMeasure :: "Network \<Rightarrow> ref list \<Rightarrow> (ref \<times> nat) list \<Rightarrow> nat" where
  "bfsMeasure g visited queue = card (targets g - set visited) + length queue"

lemma finite_targets: "finite (targets g)"
  by (simp add: targets_def)

lemma adjacent_targets: "adjacent g n = Some adj \<Longrightarrow> set adj \<subseteq> targets g"
  unfolding adjacent_def targets_def by (auto dest!: map_of_SomeD)

lemma enqueue_measure:
  "set adj \<subseteq> targets g \<Longrightarrow>
   bfsMeasure g (fst (enqueue adj d visited queue)) (snd (enqueue adj d visited queue))
     = bfsMeasure g visited queue"
proof (induction adj arbitrary: visited queue)
  case Nil
  then show ?case by simp
next
  case (Cons x adj)
  show ?case
  proof (cases "x \<in> set visited")
    case True
    with Cons show ?thesis by simp
  next
    case False
    from Cons.prems have mem: "x \<in> targets g - set visited" using False by simp
    have "targets g - set (Set_add x visited) = (targets g - set visited) - {x}"
      by (auto simp: Set_add_def)
    then have "card (targets g - set (Set_add x visited)) = card (targets g - set visited) - 1"
      using mem by (simp add: finite_targets)
    moreover have "card (targets g - set visited) > 0"
      using mem finite_targets[of g] by (metis card_gt_0_iff empty_iff finite_Diff)
    ultimately have "bfsMeasure g (Set_add x visited) (queue @ [(x, d)])
        = bfsMeasure g visited queue"
      by (simp add: bfsMeasure_def)
    with Cons False show ?thesis by simp
  qed
qed

lemma bfsBody_measure:
  assumes "bfsBody g opts visited order item queue st = Inr (visited', order', queue', st')"
  shows "bfsMeasure g visited' queue' < bfsMeasure g visited (item # queue)"
proof -
  have base: "bfsMeasure g visited queue < bfsMeasure g visited (item # queue)"
    by (simp add: bfsMeasure_def)
  show ?thesis
    using assms base enqueue_measure[OF adjacent_targets, of g "fst item" _ "snd item + 1" visited queue]
    by (auto simp: bfsBody_def Let_def split: if_splits option.splits)
qed

text \<open>The loop \<^verbatim>\<open>while (queue.length)\<close>, ending in \<^verbatim>\<open>return order\<close>.\<close>

function bfsLoop :: "Network \<Rightarrow> 'v BFSOptions \<Rightarrow> ref list \<Rightarrow> ref list \<Rightarrow> (ref \<times> nat) list
    \<Rightarrow> 'v \<Rightarrow> ref list \<times> 'v" where
  "bfsLoop g opts visited order [] st = (order, st)"
| "bfsLoop g opts visited order (item # queue) st =
     (case bfsBody g opts visited order item queue st of
        Inl ret \<Rightarrow> ret
      | Inr (visited', order', queue', st') \<Rightarrow> bfsLoop g opts visited' order' queue' st')"
  by pat_completeness auto
termination
  by (relation "measure (\<lambda>(g, opts, visited, order, queue, st). bfsMeasure g visited queue)")
     (auto dest: bfsBody_measure)

text \<open>
  \<^verbatim>\<open>const startNode = typeof start === 'string' ? findNodeById(network, start) : start\<close>
\<close>

definition startNode :: "'d world \<Rightarrow> start \<Rightarrow> ref option" where
  "startNode w s = (case s of StartId i \<Rightarrow> findNodeById w i | StartNode n \<Rightarrow> Some n)"

text \<open>
  \<^verbatim>\<open>bfs(network, start, options)\<close>. A node object given as start is an object, so
  \<^verbatim>\<open>!startNode\<close> is false for it; only the lookup of an id can fail.
\<close>

definition bfs :: "'d world \<Rightarrow> start \<Rightarrow> 'v BFSOptions \<Rightarrow> 'v \<Rightarrow> error + (ref list \<times> 'v)" where
  "bfs w s opts st =
     (case startNode w s of
        None \<Rightarrow> Inl (Error (''Start node not found: '' @ (case s of StartId i \<Rightarrow> i
                                                        | StartNode n \<Rightarrow> node_id (heap w n))))
      | Some n \<Rightarrow> Inr (bfsLoop (network w) opts [n] [] [(n, 0)] st))"

text \<open>The ids of the result, as the tests read it: \<^verbatim>\<open>bfs(...).map(n => n.id)\<close>.\<close>

definition bfsIds :: "'d world \<Rightarrow> start \<Rightarrow> 'v BFSOptions \<Rightarrow> 'v \<Rightarrow> error + string list" where
  "bfsIds w s opts st =
     (case bfs w s opts st of
        Inl e \<Rightarrow> Inl e
      | Inr r \<Rightarrow> Inr (map (\<lambda>n. node_id (heap w n)) (fst r)))"

subsection \<open>Notions for the theorems about the traversal\<close>

text \<open>The visitor's answer for a node is \<^verbatim>\<open>false\<close>: the traversal stops there.\<close>

definition stops :: "'v BFSOptions \<Rightarrow> ref \<Rightarrow> nat \<Rightarrow> 'v \<Rightarrow> bool" where
  "stops opts node depth st =
     (case visit opts of None \<Rightarrow> False | Some f \<Rightarrow> fst (f node depth st) = Some False)"

text \<open>The caller's state after the visitor has run for a node (unchanged without visitor).\<close>

definition after :: "'v BFSOptions \<Rightarrow> ref \<Rightarrow> nat \<Rightarrow> 'v \<Rightarrow> 'v" where
  "after opts node depth st =
     (case visit opts of None \<Rightarrow> st | Some f \<Rightarrow> snd (f node depth st))"

text \<open>
  Neither \<open>maxDepth\<close> nor \<open>expand\<close>, asked in the state \<open>st\<close>, keeps the neighbours of
  the node off the queue.
\<close>

definition expands :: "'v BFSOptions \<Rightarrow> ref \<Rightarrow> nat \<Rightarrow> 'v \<Rightarrow> bool" where
  "expands opts node depth st =
     ((case maxDepth opts of None \<Rightarrow> True | Some m \<Rightarrow> int depth < m)
      \<and> (case expand opts of None \<Rightarrow> True | Some e \<Rightarrow> e node depth st))"

text \<open>The neighbours that \<open>enqueue\<close> adds: those not visited, each once, in order.\<close>

fun news :: "ref list \<Rightarrow> ref list \<Rightarrow> ref list" where
  "news [] visited = []"
| "news (x # adj) visited =
     (if x \<in> set visited then news adj visited else x # news adj (visited @ [x]))"

text \<open>
  A visitor that also appends each call \<open>(node, depth)\<close> to a log kept beside its own
  state, as \<^verbatim>\<open>seen.push([node.id, depth])\<close> does in the tests.
\<close>

definition recording :: "(ref \<Rightarrow> nat \<Rightarrow> 'v \<Rightarrow> bool option \<times> 'v)
    \<Rightarrow> ref \<Rightarrow> nat \<Rightarrow> 'v \<times> (ref \<times> nat) list \<Rightarrow> bool option \<times> ('v \<times> (ref \<times> nat) list)" where
  "recording f node depth st =
     (fst (f node depth (fst st)), (snd (f node depth (fst st)), snd st @ [(node, depth)]))"

text \<open>The options with the visitor replaced.\<close>

definition withVisit :: "(ref \<Rightarrow> nat \<Rightarrow> 'v \<Rightarrow> bool option \<times> 'v) \<Rightarrow> 'v BFSOptions
    \<Rightarrow> 'v BFSOptions" where
  "withVisit f opts = \<lparr>visit = Some f, expand = expand opts, maxDepth = maxDepth opts\<rparr>"

text \<open>
  An \<open>expand\<close> of the caller where the caller's state has a log beside it: it reads the
  caller's part.
\<close>

definition beside :: "(ref \<Rightarrow> nat \<Rightarrow> 'v \<Rightarrow> bool) \<Rightarrow> ref \<Rightarrow> nat \<Rightarrow> 'v \<times> 'l \<Rightarrow> bool" where
  "beside e node depth st = e node depth (fst st)"

text \<open>The options with the visitor \<open>f\<close> made to record its calls.\<close>

definition recorded :: "(ref \<Rightarrow> nat \<Rightarrow> 'v \<Rightarrow> bool option \<times> 'v) \<Rightarrow> 'v BFSOptions
    \<Rightarrow> ('v \<times> (ref \<times> nat) list) BFSOptions" where
  "recorded f opts =
     \<lparr>visit = Some (recording f), expand = map_option beside (expand opts),
      maxDepth = maxDepth opts\<rparr>"

text \<open>
  The trace of a traversal: one entry \<open>(node, depth, state)\<close> for every node taken off
  the queue, the state being the caller's state after the visitor has run for the node,
  which is the state that \<open>expand\<close> is asked in. \<open>tracing\<close> is the visitor of the options,
  or a visitor that answers nothing when they have none, made to write the trace;
  \<open>traced\<close> is the options with that visitor.
\<close>

definition tracing :: "(ref \<Rightarrow> nat \<Rightarrow> 'v \<Rightarrow> bool option \<times> 'v) option
    \<Rightarrow> ref \<Rightarrow> nat \<Rightarrow> 'v \<times> (ref \<times> nat \<times> 'v) list
    \<Rightarrow> bool option \<times> ('v \<times> (ref \<times> nat \<times> 'v) list)" where
  "tracing vo node depth st =
     (let r = (case vo of None \<Rightarrow> (None, fst st) | Some f \<Rightarrow> f node depth (fst st))
      in (fst r, (snd r, snd st @ [(node, depth, snd r)])))"

definition traced :: "'v BFSOptions \<Rightarrow> ('v \<times> (ref \<times> nat \<times> 'v) list) BFSOptions" where
  "traced opts =
     \<lparr>visit = Some (tracing (visit opts)), expand = map_option beside (expand opts),
      maxDepth = maxDepth opts\<rparr>"

text \<open>
  The neighbours of the node of a trace entry were not kept off the queue: \<open>maxDepth\<close>
  allowed it and \<open>expand\<close>, if given, answered true in the state of the entry.
\<close>

definition opened :: "'v BFSOptions \<Rightarrow> ref \<times> nat \<times> 'v \<Rightarrow> bool" where
  "opened opts x = expands opts (fst x) (fst (snd x)) (snd (snd x))"

text \<open>
  One entry of the trace leads to another: the neighbours of the first were not kept off
  the queue, the network has the edge between their nodes, and the second is one level
  deeper.
\<close>

definition link :: "Network \<Rightarrow> 'v BFSOptions \<Rightarrow> (ref \<times> nat \<times> 'v) list
    \<Rightarrow> ref \<times> nat \<times> 'v \<Rightarrow> ref \<times> nat \<times> 'v \<Rightarrow> bool" where
  "link g opts log x y =
     (x \<in> set log \<and> y \<in> set log \<and> opened opts x \<and> hasEdge g (fst x) (fst y)
      \<and> fst (snd y) = Suc (fst (snd x)))"

text \<open>
  An entry of the trace is accounted for: a chain of such steps leads to it from an entry
  for the start node \<open>n\<close> at depth 0.
\<close>

definition rooted :: "Network \<Rightarrow> 'v BFSOptions \<Rightarrow> ref \<Rightarrow> (ref \<times> nat \<times> 'v) list
    \<Rightarrow> ref \<times> nat \<times> 'v \<Rightarrow> bool" where
  "rooted g opts n log y =
     (\<exists>r \<in> set log. fst r = n \<and> fst (snd r) = 0 \<and> rtranclp (link g opts log) r y)"

text \<open>
  An item of the queue is accounted for: it is the start node at depth 0, or a successor,
  one level deeper, of the node of an entry that is accounted for and whose neighbours
  were not kept off the queue.
\<close>

definition due :: "Network \<Rightarrow> 'v BFSOptions \<Rightarrow> ref \<Rightarrow> (ref \<times> nat \<times> 'v) list \<Rightarrow> ref \<times> nat \<Rightarrow> bool" where
  "due g opts n log item =
     ((fst item = n \<and> snd item = 0)
      \<or> (\<exists>x \<in> set log. rooted g opts n log x \<and> opened opts x \<and> hasEdge g (fst x) (fst item)
            \<and> snd item = Suc (fst (snd x))))"

section \<open>Example networks\<close>

text \<open>Payloads are numbers here. \<open>noNode\<close> fills the unused references of the store.\<close>

definition noNode :: "nat Node" where
  "noNode = \<lparr>node_id = [], data = 0, rules = []\<rparr>"

text \<open>The rules of the tests of the manager and of the scenario of section 8 of the spec.\<close>

definition outgoingAll :: "nat Rule" where
  "outgoingAll = \<lparr>direction = Some Outgoing, match = (\<lambda>_ _. True), targetFilter = None\<rparr>"

definition incomingAll :: "nat Rule" where
  "incomingAll = \<lparr>direction = Some Incoming, match = (\<lambda>_ _. True), targetFilter = None\<rparr>"

definition bothAll :: "nat Rule" where
  "bothAll = \<lparr>direction = Some Both, match = (\<lambda>_ _. True), targetFilter = None\<rparr>"

definition nodeA :: "nat Node" where
  "nodeA = \<lparr>node_id = ''a'', data = 1, rules = [outgoingAll]\<rparr>"

definition nodeB :: "nat Node" where
  "nodeB = \<lparr>node_id = ''b'', data = 2, rules = [incomingAll]\<rparr>"

text \<open>
  The scenario of section 8 of the spec: \<open>a\<close> with an outgoing rule, \<open>b\<close> with an incoming
  rule, then \<open>c\<close> with a rule of direction Both, all matching everything.
\<close>

definition scenario :: "nat world" where
  "scenario = snd (createNode ''c'' 3 [bothAll]
                (snd (createNode ''b'' 2 [incomingAll]
                (snd (createNode ''a'' 1 [outgoingAll] (newManager (\<lambda>_. noNode)))))))"

text \<open>
  A node \<open>a\<close> that initiates edges to smaller values and a node \<open>b\<close> that accepts every
  edge: \<^verbatim>\<open>createNode('a', 10, [wantsSmaller]); createNode('b', 5, [incomingAll])\<close> gives
  the one edge \<open>a \<rightarrow> b\<close>, and \<open>b\<close> has no outgoing edge.
\<close>

definition wantsSmaller :: "nat Rule" where
  "wantsSmaller = \<lparr>direction = Some Outgoing, match = (\<lambda>s t. t < s), targetFilter = None\<rparr>"

definition oneWay :: "nat world" where
  "oneWay = snd (createNode ''b'' 5 [incomingAll]
              (snd (createNode ''a'' 10 [wantsSmaller] (newManager (\<lambda>_. noNode)))))"

text \<open>
  A node \<open>x\<close> that initiates edges to the value 0 and accepts edges from the value 1, and
  a node \<open>n\<close> that accepts every edge and initiates edges when its own value is 1:
  with \<open>n\<close> of value 0 the one edge is \<open>x \<rightarrow> n\<close>.
\<close>

definition toZero :: "nat Rule" where
  "toZero = \<lparr>direction = Some Outgoing, match = (\<lambda>s t. t = 0), targetFilter = None\<rparr>"

definition fromOne :: "nat Rule" where
  "fromOne = \<lparr>direction = Some Incoming, match = (\<lambda>s t. t = 1), targetFilter = None\<rparr>"

definition whenOne :: "nat Rule" where
  "whenOne = \<lparr>direction = Some Outgoing, match = (\<lambda>s t. s = 1), targetFilter = None\<rparr>"

definition incoming :: "nat world" where
  "incoming = snd (createNode ''n'' 0 [incomingAll, whenOne]
                (snd (createNode ''x'' 7 [toZero, fromOne] (newManager (\<lambda>_. noNode)))))"

text \<open>
  The networks of the traversal tests. \<open>wire\<close> is \<^verbatim>\<open>mgr.network.addEdge(s, t)\<close>;
  \<open>chain\<close> is \<^verbatim>\<open>a->b->c->d\<close> of the test "limits traversal by maxDepth", \<open>chain3\<close> is
  \<^verbatim>\<open>a->b->c\<close> of the test of barriers, with the nodes \<open>a, b, c, d\<close> at the references
  \<open>0, 1, 2, 3\<close>.
\<close>

definition wire :: "ref \<Rightarrow> ref \<Rightarrow> 'd world \<Rightarrow> 'd world" where
  "wire s t w = w\<lparr>network := addEdge (network w) s t\<rparr>"

definition chain3 :: "nat world" where
  "chain3 = wire 1 2 (wire 0 1
     (snd (createNode ''c'' 3 []
     (snd (createNode ''b'' 2 []
     (snd (createNode ''a'' 1 [] (newManager (\<lambda>_. noNode)))))))))"

definition chain :: "nat world" where
  "chain = wire 2 3 (wire 1 2 (wire 0 1
     (snd (createNode ''d'' 4 []
     (snd (createNode ''c'' 3 []
     (snd (createNode ''b'' 2 []
     (snd (createNode ''a'' 1 [] (newManager (\<lambda>_. noNode))))))))))))"

text \<open>The traversal without options, for a caller without state.\<close>

definition plain :: "unit BFSOptions" where
  "plain = noOptions"

text \<open>\<^verbatim>\<open>{ maxDepth: 1 }\<close> and \<^verbatim>\<open>{ maxDepth: 2 }\<close>.\<close>

definition depth1 :: "unit BFSOptions" where
  "depth1 = \<lparr>visit = None, expand = None, maxDepth = Some 1\<rparr>"

definition depth2 :: "unit BFSOptions" where
  "depth2 = \<lparr>visit = None, expand = None, maxDepth = Some 2\<rparr>"

text \<open>A visitor that answers nothing and keeps no state.\<close>

definition silent :: "ref \<Rightarrow> nat \<Rightarrow> unit \<Rightarrow> bool option \<times> unit" where
  "silent n d st = (None, st)"

text \<open>\<^verbatim>\<open>{ expand: node => node.id !== 'b' }\<close> on \<open>chain3\<close>.\<close>

definition notB :: "unit BFSOptions" where
  "notB = \<lparr>visit = None, expand = Some (\<lambda>n d st. node_id (heap chain3 n) \<noteq> ''b''),
           maxDepth = None\<rparr>"

text \<open>\<^verbatim>\<open>{ expand: (node, depth) => depth !== 0 }\<close>: the start node is a barrier.\<close>

definition notRoot :: "unit BFSOptions" where
  "notRoot = \<lparr>visit = None, expand = Some (\<lambda>n d st. d \<noteq> 0), maxDepth = None\<rparr>"

text \<open>
  Four nodes \<open>s, b, u, v\<close> at the references \<open>0, 1, 2, 3\<close>, wired
  \<^verbatim>\<open>s->b->u<->v\<close>: \<open>u\<close> and \<open>v\<close> reach each other and are reached from \<open>s\<close> only
  through \<open>b\<close>. And \<^verbatim>\<open>{ expand: node => node.id !== 'b' }\<close> on it.
\<close>

definition behind :: "nat world" where
  "behind = wire 3 2 (wire 2 3 (wire 1 2 (wire 0 1
     (snd (createNode ''v'' 4 []
     (snd (createNode ''u'' 3 []
     (snd (createNode ''b'' 2 []
     (snd (createNode ''s'' 1 [] (newManager (\<lambda>_. noNode)))))))))))))"

definition barrierB :: "unit BFSOptions" where
  "barrierB = \<lparr>visit = None, expand = Some (\<lambda>n d st. node_id (heap behind n) \<noteq> ''b''),
               maxDepth = None\<rparr>"

text \<open>
  An \<open>expand\<close> that reads what \<open>visit\<close> writes:
  \<^verbatim>\<open>{ visit: n => { last = n }, expand: () => last.id !== 'b' }\<close> on \<open>chain3\<close>, the
  caller's state being the variable \<open>last\<close>.
\<close>

definition lastSeen :: "ref BFSOptions" where
  "lastSeen = \<lparr>visit = Some (\<lambda>n d last. (None, n)),
               expand = Some (\<lambda>n d last. node_id (heap chain3 last) \<noteq> ''b''),
               maxDepth = None\<rparr>"

text \<open>
  The test "invokes visitor with depth and can early stop": the rule
  \<^verbatim>\<open>Math.abs(s.v - t.v) === 1\<close> links \<open>a\<close> (1), \<open>b\<close> (2) and \<open>c\<close> (3) into
  \<^verbatim>\<open>a <-> b <-> c\<close>, and the visitor answers \<^verbatim>\<open>false\<close> at \<open>b\<close> and nothing elsewhere.
\<close>

definition linkToNext :: "nat Rule" where
  "linkToNext = \<lparr>direction = None, match = (\<lambda>s t. s = t + 1 \<or> t = s + 1), targetFilter = None\<rparr>"

definition linked :: "nat world" where
  "linked = snd (createNode ''c'' 3 [linkToNext]
             (snd (createNode ''b'' 2 [linkToNext]
             (snd (createNode ''a'' 1 [linkToNext] (newManager (\<lambda>_. noNode)))))))"

definition stopAtB :: "ref \<Rightarrow> nat \<Rightarrow> unit \<Rightarrow> bool option \<times> unit" where
  "stopAtB n d st = (if node_id (heap linked n) = ''b'' then Some False else None, st)"

section \<open>The handshake: theorems\<close>

lemma acceptLoop_iff:
  "acceptLoop source target ts = (\<exists>r \<in> set ts. accepts r target source)"
  by (induction ts) (auto simp: accepts_def intro: RuleDirection.exhaust)

lemma initiateLoop_iff:
  "initiateLoop source target ss =
     ((\<exists>r \<in> set ss. initiates r source target) \<and> acceptLoop source target (rules target))"
  by (induction ss) (auto simp: initiates_def split: option.splits intro: RuleDirection.exhaust)

text \<open>
  Claim C1. \<open>tryHandshake source target\<close> is true exactly when the source has a rule of
  direction Outgoing or Both (Both when the direction is absent) whose \<open>targetFilter\<close>, if
  present, holds of the target's data and whose \<open>match\<close> holds of (source data, target
  data), and the target has a rule of direction Incoming or Both whose \<open>match\<close> holds of
  (target data, source data); the accepting side never reads \<open>targetFilter\<close>.
\<close>

theorem tryHandshake_iff:
  "tryHandshake source target =
     ((\<exists>r \<in> set (rules source).
          (direction r = Some Outgoing \<or> direction r = Some Both \<or> direction r = None)
          \<and> (case targetFilter r of None \<Rightarrow> True | Some f \<Rightarrow> f (data target))
          \<and> match r (data source) (data target))
      \<and> (\<exists>r \<in> set (rules target).
          (direction r = Some Incoming \<or> direction r = Some Both \<or> direction r = None)
          \<and> match r (data target) (data source)))"
proof -
  have dirs: "\<And>r :: 'd Rule. (dirOf r = Outgoing \<or> dirOf r = Both) =
      (direction r = Some Outgoing \<or> direction r = Some Both \<or> direction r = None)"
    "\<And>r :: 'd Rule. (dirOf r = Incoming \<or> dirOf r = Both) =
      (direction r = Some Incoming \<or> direction r = Some Both \<or> direction r = None)"
    by (auto simp: dirOf_def split: option.splits)
  show ?thesis
    unfolding tryHandshake_def initiateLoop_iff acceptLoop_iff initiates_def accepts_def dirs
    by (rule refl)
qed

theorem tryHandshake_iff_witness:
  "tryHandshake nodeA nodeB \<and> \<not> tryHandshake nodeB nodeA"
  using tryHandshake_iff [of nodeA nodeB] tryHandshake_iff [of nodeB nodeA]
  by (simp add: nodeA_def nodeB_def outgoingAll_def incomingAll_def)

section \<open>The graph store: what the operations do to the edges\<close>

lemma adjacent_addNode:
  "adjacent (addNode g n) m = (if m = n \<and> adjacent g n = None then Some [] else adjacent g m)"
  by (auto simp: adjacent_def addNode_def update_conv' split: option.splits)

lemma hasEdge_addNode: "hasEdge (addNode g n) a b = hasEdge g a b"
  by (auto simp: hasEdge_def adjacent_addNode split: option.splits)

lemma nodes_addNode: "nodes (addNode g n) = Set_add n (nodes g)"
  by (simp add: addNode_def)

lemma hasEdge_addEdge: "hasEdge (addEdge g s t) a b = (hasEdge g a b \<or> (a = s \<and> b = t))"
proof -
  let ?g2 = "addNode (addNode g s) t"
  have "adjacent ?g2 s \<noteq> None"
    by (auto simp: adjacent_addNode)
  then obtain adj where adj: "adjacent ?g2 s = Some adj" by blast
  have eq: "hasEdge ?g2 a b = hasEdge g a b"
    by (simp add: hasEdge_addNode)
  have "hasEdge (addEdge g s t) a b = (hasEdge ?g2 a b \<or> (a = s \<and> b = t))"
    using adj by (auto simp: addEdge_def Let_def hasEdge_def adjacent_def update_conv' Set_add_def)
  with eq show ?thesis by simp
qed

lemma nodes_addEdge: "nodes (addEdge g s t) = Set_add t (Set_add s (nodes g))"
  by (auto simp: addEdge_def Let_def nodes_addNode split: option.splits)

lemma hasEdge_removeEdge:
  "hasEdge (removeEdge g s t) a b = (hasEdge g a b \<and> \<not> (a = s \<and> b = t))"
  by (auto simp: removeEdge_def hasEdge_def adjacent_def update_conv' Set_delete_def
      split: option.splits)

lemma nodes_removeEdge: "nodes (removeEdge g s t) = nodes g"
  by (auto simp: removeEdge_def split: option.splits)

lemma map_of_mapped:
  "map_of (map (\<lambda>(k, adj). (k, f adj)) al) k = map_option f (map_of al k)"
  by (induction al) auto

lemma hasEdge_Graph_removeNode:
  "hasEdge (Graph_removeNode g n) a b = (hasEdge g a b \<and> a \<noteq> n \<and> b \<noteq> n)"
  by (auto simp: Graph_removeNode_def hasEdge_def adjacent_def map_of_mapped delete_conv'
      Set_delete_def split: option.splits)

lemma nodes_Graph_removeNode: "nodes (Graph_removeNode g n) = removeAll n (nodes g)"
  by (simp add: Graph_removeNode_def Set_delete_def)

section \<open>Creation\<close>

lemma sweep_heap: "heap (sweep node others w) = heap w \<and> fresh (sweep node others w) = fresh w"
  by (induction others arbitrary: w) (auto simp: Let_def)

lemma sweep_nodes:
  "node \<in> set (nodes (network w)) \<Longrightarrow> set others \<subseteq> set (nodes (network w)) \<Longrightarrow>
   nodes (network (sweep node others w)) = nodes (network w)"
  by (induction others arbitrary: w) (auto simp: Let_def nodes_addEdge Set_add_def)

lemma sweep_hasEdge:
  "hasEdge (network (sweep node others w)) a b =
     (hasEdge (network w) a b
      \<or> (a = node \<and> b \<in> set others \<and> b \<noteq> node \<and> tryHandshake (heap w node) (heap w b))
      \<or> (b = node \<and> a \<in> set others \<and> a \<noteq> node \<and> tryHandshake (heap w a) (heap w node)))"
proof (induction others arbitrary: w)
  case Nil
  then show ?case by simp
next
  case (Cons other rest)
  show ?case
  proof (cases "other = node")
    case True
    with Cons show ?thesis by auto
  next
    case False
    define w1 where "w1 = (if tryHandshake (heap w node) (heap w other)
                  then w\<lparr>network := addEdge (network w) node other\<rparr> else w)"
    define w2 where "w2 = (if tryHandshake (heap w1 other) (heap w1 node)
                  then w1\<lparr>network := addEdge (network w1) other node\<rparr> else w1)"
    have h: "heap w2 = heap w" by (simp add: w2_def w1_def)
    have e: "hasEdge (network w2) a b =
        (hasEdge (network w) a b
         \<or> (a = node \<and> b = other \<and> tryHandshake (heap w node) (heap w other))
         \<or> (a = other \<and> b = node \<and> tryHandshake (heap w other) (heap w node)))"
      by (auto simp: w2_def w1_def hasEdge_addEdge)
    have "sweep node (other # rest) w = sweep node rest w2"
      using False by (simp add: w1_def w2_def Let_def)
    then show ?thesis
      using Cons[of w2] False by (auto simp: h e)
  qed
qed

lemma createNode_ok:
  assumes "i \<noteq> []" "findNode w i = None" "wellFormed w"
  shows "fst (createNode i d rs w) = Inr (fresh w)"
    and "heap (snd (createNode i d rs w)) = (heap w)(fresh w := made i d rs)"
    and "fresh (snd (createNode i d rs w)) = Suc (fresh w)"
    and "nodes (network (snd (createNode i d rs w))) = nodes (network w) @ [fresh w]"
    and "hasEdge (network (snd (createNode i d rs w))) a b =
          (hasEdge (network w) a b
           \<or> (a = fresh w \<and> b \<in> set (nodes (network w)) \<and> tryHandshake (made i d rs) (heap w b))
           \<or> (b = fresh w \<and> a \<in> set (nodes (network w)) \<and> tryHandshake (heap w a) (made i d rs)))"
proof -
  let ?n = "fresh w"
  let ?w1 = "w\<lparr>heap := (heap w)(?n := made i d rs), fresh := Suc ?n\<rparr>"
  let ?w2 = "?w1\<lparr>network := addNode (network ?w1) ?n\<rparr>"
  have notin: "?n \<notin> set (nodes (network w))"
    using assms(3) by (auto simp: wellFormed_def)
  have cn: "createNode i d rs w = (Inr ?n, sweep ?n (nodes (network ?w2)) ?w2)"
    using assms(1,2) by (simp add: createNode_def Let_def made_def)
  then show "fst (createNode i d rs w) = Inr (fresh w)" by simp
  from cn have w': "snd (createNode i d rs w) = sweep ?n (nodes (network ?w2)) ?w2" by simp
  show "heap (snd (createNode i d rs w)) = (heap w)(fresh w := made i d rs)"
    and "fresh (snd (createNode i d rs w)) = Suc (fresh w)"
    by (simp_all add: w' sweep_heap)
  have n2: "nodes (network ?w2) = nodes (network w) @ [?n]"
    using notin by (simp add: nodes_addNode Set_add_def)
  show "nodes (network (snd (createNode i d rs w))) = nodes (network w) @ [fresh w]"
    unfolding w' using n2 by (subst sweep_nodes) auto
  show "hasEdge (network (snd (createNode i d rs w))) a b =
          (hasEdge (network w) a b
           \<or> (a = fresh w \<and> b \<in> set (nodes (network w)) \<and> tryHandshake (made i d rs) (heap w b))
           \<or> (b = fresh w \<and> a \<in> set (nodes (network w)) \<and> tryHandshake (heap w a) (made i d rs)))"
    unfolding w' sweep_hasEdge n2 using notin by (auto simp: hasEdge_addNode)
qed

lemma createNode_wellFormed:
  assumes "i \<noteq> []" "findNode w i = None" "wellFormed w"
  shows "wellFormed (snd (createNode i d rs w))"
  using assms(3) unfolding wellFormed_def
  by (auto simp: createNode_ok[OF assms] less_Suc_eq)

lemma newManager_consistent: "consistent (newManager h)"
  by (simp add: consistent_def newManager_def hasEdge_def adjacent_def)

lemma createNode_consistent:
  assumes "i \<noteq> []" "findNode w i = None" "wellFormed w" "consistent w"
  shows "consistent (snd (createNode i d rs w))"
proof -
  have notin: "fresh w \<notin> set (nodes (network w))"
    using assms(3) by (auto simp: wellFormed_def)
  show ?thesis
    using assms(4) notin unfolding consistent_def createNode_ok[OF assms(1-3)]
    by auto
qed

lemma find_append_new:
  "find P (xs @ [x]) = (case find P xs of Some r \<Rightarrow> Some r | None \<Rightarrow> if P x then Some x else None)"
  by (induction xs) auto

lemma createNode_findNode:
  assumes "i \<noteq> []" "findNode w i = None" "wellFormed w"
  shows "findNode (snd (createNode i d rs w)) j =
           (if j = i then Some (fresh w) else findNode w j)"
proof -
  have notin: "fresh w \<notin> set (nodes (network w))"
    using assms(3) by (auto simp: wellFormed_def)
  have same: "find (\<lambda>n. node_id (((heap w)(fresh w := made i d rs)) n) = j) (nodes (network w))
      = find (\<lambda>n. node_id (heap w n) = j) (nodes (network w))"
    using notin by (intro find_cong) auto
  show ?thesis
    using assms(2) unfolding findNode_def createNode_ok[OF assms] find_append_new same
    by (auto simp: made_def split: option.splits)
qed

lemma findNode_old:
  "wellFormed w \<Longrightarrow> findNode w x = Some r \<Longrightarrow> r \<in> set (nodes (network w)) \<and> r < fresh w"
  by (auto simp: findNode_def wellFormed_def find_Some_iff)

lemma wellFormed_edge:
  "wellFormed w \<Longrightarrow> hasEdge (network w) a b \<Longrightarrow> a < fresh w \<and> b < fresh w"
  by (simp add: wellFormed_def)

lemma createBoth_facts:
  assumes wf: "wellFormed w" and i1: "i1 \<noteq> []" and i2: "i2 \<noteq> []" and ne: "i1 \<noteq> i2"
    and n1: "findNode w i1 = None" and n2: "findNode w i2 = None"
  shows "fst (createNode i1 d1 rs1 w) = Inr (fresh w)"
    and "fst (createNode i2 d2 rs2 (snd (createNode i1 d1 rs1 w))) = Inr (Suc (fresh w))"
    and "findNode (createBoth i1 d1 rs1 i2 d2 rs2 w) x =
           (if x = i2 then Some (Suc (fresh w)) else if x = i1 then Some (fresh w) else findNode w x)"
    and "hasEdge (network (createBoth i1 d1 rs1 i2 d2 rs2 w)) a b =
          (hasEdge (network w) a b
           \<or> (a = fresh w \<and> b \<in> set (nodes (network w)) \<and> tryHandshake (made i1 d1 rs1) (heap w b))
           \<or> (b = fresh w \<and> a \<in> set (nodes (network w)) \<and> tryHandshake (heap w a) (made i1 d1 rs1))
           \<or> (a = Suc (fresh w) \<and> b \<in> set (nodes (network w)) \<and> tryHandshake (made i2 d2 rs2) (heap w b))
           \<or> (b = Suc (fresh w) \<and> a \<in> set (nodes (network w)) \<and> tryHandshake (heap w a) (made i2 d2 rs2))
           \<or> (a = Suc (fresh w) \<and> b = fresh w \<and> tryHandshake (made i2 d2 rs2) (made i1 d1 rs1))
           \<or> (a = fresh w \<and> b = Suc (fresh w) \<and> tryHandshake (made i1 d1 rs1) (made i2 d2 rs2)))"
    and "consistent w \<Longrightarrow> consistent (createBoth i1 d1 rs1 i2 d2 rs2 w)"
proof -
  let ?w1 = "snd (createNode i1 d1 rs1 w)"
  note first = createNode_ok[OF i1 n1 wf, of d1 rs1]
  have wf1: "wellFormed ?w1" by (rule createNode_wellFormed[OF i1 n1 wf])
  have n2': "findNode ?w1 i2 = None"
    using ne n2 by (simp add: createNode_findNode[OF i1 n1 wf])
  note second = createNode_ok[OF i2 n2' wf1, of d2 rs2]
  show "consistent w \<Longrightarrow> consistent (createBoth i1 d1 rs1 i2 d2 rs2 w)"
    unfolding createBoth_def
    by (intro createNode_consistent[OF i2 n2' wf1] createNode_consistent[OF i1 n1 wf])
  have notin: "fresh w \<notin> set (nodes (network w))"
    using wf by (auto simp: wellFormed_def)
  show "fst (createNode i1 d1 rs1 w) = Inr (fresh w)" by (rule first(1))
  show "fst (createNode i2 d2 rs2 ?w1) = Inr (Suc (fresh w))"
    using second(1) first(3) by simp
  show "findNode (createBoth i1 d1 rs1 i2 d2 rs2 w) x =
           (if x = i2 then Some (Suc (fresh w)) else if x = i1 then Some (fresh w) else findNode w x)"
    unfolding createBoth_def createNode_findNode[OF i2 n2' wf1] createNode_findNode[OF i1 n1 wf]
    using first(3) by simp
  show "hasEdge (network (createBoth i1 d1 rs1 i2 d2 rs2 w)) a b =
          (hasEdge (network w) a b
           \<or> (a = fresh w \<and> b \<in> set (nodes (network w)) \<and> tryHandshake (made i1 d1 rs1) (heap w b))
           \<or> (b = fresh w \<and> a \<in> set (nodes (network w)) \<and> tryHandshake (heap w a) (made i1 d1 rs1))
           \<or> (a = Suc (fresh w) \<and> b \<in> set (nodes (network w)) \<and> tryHandshake (made i2 d2 rs2) (heap w b))
           \<or> (b = Suc (fresh w) \<and> a \<in> set (nodes (network w)) \<and> tryHandshake (heap w a) (made i2 d2 rs2))
           \<or> (a = Suc (fresh w) \<and> b = fresh w \<and> tryHandshake (made i2 d2 rs2) (made i1 d1 rs1))
           \<or> (a = fresh w \<and> b = Suc (fresh w) \<and> tryHandshake (made i1 d1 rs1) (made i2 d2 rs2)))"
    unfolding createBoth_def second(5) first(2,3,4,5)
    using notin by auto
qed

lemma newManager_wellFormed: "wellFormed (newManager h)"
  by (simp add: wellFormed_def newManager_def hasEdge_def adjacent_def)

text \<open>
  Claim C3. Let \<open>A\<close> and \<open>B\<close> be created one after the other, in either order, in a state
  where neither id is taken (and both are non-empty and distinct). Both creations succeed
  in both orders; afterwards the edge from \<open>A\<close> to \<open>B\<close> exists exactly when the handshake
  of the node made for \<open>A\<close> with the node made for \<open>B\<close> succeeds; and the two orders give
  the same edges between the nodes of any two ids. Moreover, if the edges before were
  exactly those that the handshake justifies, they are so after the two creations in
  either order; so every edge between two nodes, however many creations lie between theirs,
  is decided by the handshake of the two, not by the order.
\<close>

theorem createNode_order:
  assumes wf: "wellFormed w" and iA: "iA \<noteq> []" and iB: "iB \<noteq> []" and ne: "iA \<noteq> iB"
    and nA: "findNode w iA = None" and nB: "findNode w iB = None"
  shows "(\<exists>a b. fst (createNode iA dA rsA w) = Inr a
            \<and> fst (createNode iB dB rsB (snd (createNode iA dA rsA w))) = Inr b)
       \<and> (\<exists>b a. fst (createNode iB dB rsB w) = Inr b
            \<and> fst (createNode iA dA rsA (snd (createNode iB dB rsB w))) = Inr a)
       \<and> edgeById (createBoth iA dA rsA iB dB rsB w) iA iB
            = tryHandshake (made iA dA rsA) (made iB dB rsB)
       \<and> edgeById (createBoth iB dB rsB iA dA rsA w) iA iB
            = tryHandshake (made iA dA rsA) (made iB dB rsB)
       \<and> (\<forall>x y. edgeById (createBoth iA dA rsA iB dB rsB w) x y
                = edgeById (createBoth iB dB rsB iA dA rsA w) x y)
       \<and> (consistent w \<longrightarrow> consistent (createBoth iA dA rsA iB dB rsB w)
                            \<and> consistent (createBoth iB dB rsB iA dA rsA w))"
proof -
  note fAB = createBoth_facts[OF wf iA iB ne nA nB]
  note fBA = createBoth_facts[OF wf iB iA ne[symmetric] nB nA]
  have notin: "fresh w \<notin> set (nodes (network w))" "Suc (fresh w) \<notin> set (nodes (network w))"
    using wf by (auto simp: wellFormed_def)
  have noedge: "\<And>a b. hasEdge (network w) a b \<Longrightarrow> a < fresh w \<and> b < fresh w"
    using wf by (rule wellFormed_edge)
  have old: "\<And>x r. findNode w x = Some r \<Longrightarrow> r \<in> set (nodes (network w)) \<and> r < fresh w"
    using wf by (rule findNode_old)
  have ok1: "\<exists>a b. fst (createNode iA dA rsA w) = Inr a
            \<and> fst (createNode iB dB rsB (snd (createNode iA dA rsA w))) = Inr b"
    using fAB(1,2) by blast
  have ok2: "\<exists>b a. fst (createNode iB dB rsB w) = Inr b
            \<and> fst (createNode iA dA rsA (snd (createNode iB dB rsB w))) = Inr a"
    using fBA(1,2) by blast
  have e1: "edgeById (createBoth iA dA rsA iB dB rsB w) iA iB
            = tryHandshake (made iA dA rsA) (made iB dB rsB)"
    unfolding edgeById_def fAB(3,4) using ne notin noedge[of "fresh w" "Suc (fresh w)"] by auto
  have e2: "edgeById (createBoth iB dB rsB iA dA rsA w) iA iB
            = tryHandshake (made iA dA rsA) (made iB dB rsB)"
    unfolding edgeById_def fBA(3,4) using ne notin noedge[of "Suc (fresh w)" "fresh w"] by auto
  have e3: "edgeById (createBoth iA dA rsA iB dB rsB w) x y
                = edgeById (createBoth iB dB rsB iA dA rsA w) x y" for x y
  proof -
    consider (AA) "x = iA" "y = iA" | (AB) "x = iA" "y = iB" | (BA) "x = iB" "y = iA"
      | (BB) "x = iB" "y = iB"
      | (AO) "x = iA" "y \<noteq> iA" "y \<noteq> iB" | (BO) "x = iB" "y \<noteq> iA" "y \<noteq> iB"
      | (OA) "y = iA" "x \<noteq> iA" "x \<noteq> iB" | (OB) "y = iB" "x \<noteq> iA" "x \<noteq> iB"
      | (OO) "x \<noteq> iA" "x \<noteq> iB" "y \<noteq> iA" "y \<noteq> iB"
      by blast
    then show ?thesis
    proof cases
      case AA
      then show ?thesis unfolding edgeById_def fAB(3,4) fBA(3,4)
        using ne notin noedge[of "fresh w" "fresh w"] noedge[of "Suc (fresh w)" "Suc (fresh w)"] by auto
    next
      case AB
      with e1 e2 show ?thesis by simp
    next
      case BA
      then show ?thesis unfolding edgeById_def fAB(3,4) fBA(3,4)
        using ne notin noedge[of "fresh w" "Suc (fresh w)"] noedge[of "Suc (fresh w)" "fresh w"] by auto
    next
      case BB
      then show ?thesis unfolding edgeById_def fAB(3,4) fBA(3,4)
        using ne notin noedge[of "fresh w" "fresh w"] noedge[of "Suc (fresh w)" "Suc (fresh w)"] by auto
    next
      case AO
      then show ?thesis unfolding edgeById_def fAB(3,4) fBA(3,4)
        using ne notin by (auto split: option.splits dest!: old dest: noedge)
    next
      case BO
      then show ?thesis unfolding edgeById_def fAB(3,4) fBA(3,4)
        using ne notin by (auto split: option.splits dest!: old dest: noedge)
    next
      case OA
      then show ?thesis unfolding edgeById_def fAB(3,4) fBA(3,4)
        using ne notin by (auto split: option.splits dest!: old dest: noedge)
    next
      case OB
      then show ?thesis unfolding edgeById_def fAB(3,4) fBA(3,4)
        using ne notin by (auto split: option.splits dest!: old dest: noedge)
    next
      case OO
      then show ?thesis unfolding edgeById_def fAB(3,4) fBA(3,4)
        using ne notin by (auto split: option.splits dest!: old dest: noedge)
    qed
  qed
  have inv: "consistent w \<longrightarrow> consistent (createBoth iA dA rsA iB dB rsB w)
                            \<and> consistent (createBoth iB dB rsB iA dA rsA w)"
    using fAB(5) fBA(5) by blast
  from ok1 ok2 e1 e2 e3 inv show ?thesis by blast
qed


theorem createNode_order_witness:
  "wellFormed oneWay \<and> findNode oneWay ''c'' = None \<and> findNode oneWay ''d'' = None
   \<and> edgeById (createBoth ''c'' 3 [bothAll] ''d'' 20 [wantsSmaller, incomingAll] oneWay) ''c'' ''d''
   \<and> edgeById (createBoth ''d'' 20 [wantsSmaller, incomingAll] ''c'' 3 [bothAll] oneWay) ''c'' ''d''
   \<and> edgeById (createBoth ''c'' 3 [bothAll] ''d'' 20 [wantsSmaller, incomingAll] oneWay) ''d'' ''b''
   \<and> edgeById (createBoth ''d'' 20 [wantsSmaller, incomingAll] ''c'' 3 [bothAll] oneWay) ''d'' ''b''
   \<and> consistent oneWay
   \<and> consistent (createBoth ''c'' 3 [bothAll] ''d'' 20 [wantsSmaller, incomingAll] oneWay)
   \<and> consistent (createBoth ''d'' 20 [wantsSmaller, incomingAll] ''c'' 3 [bothAll] oneWay)"
proof -
  let ?w0 = "newManager (\<lambda>_. noNode) :: nat world"
  let ?w1 = "snd (createNode ''a'' 10 [wantsSmaller] ?w0)"
  have a: "findNode ?w0 ''a'' = None" and b: "findNode ?w1 ''b'' = None"
    by code_simp+
  have wf1: "wellFormed ?w1"
    by (rule createNode_wellFormed [OF _ a newManager_wellFormed]) simp
  have wf: "wellFormed oneWay"
    unfolding oneWay_def by (rule createNode_wellFormed [OF _ b wf1]) simp
  have co1: "consistent ?w1"
    by (rule createNode_consistent [OF _ a newManager_wellFormed newManager_consistent]) simp
  have co: "consistent oneWay"
    unfolding oneWay_def by (rule createNode_consistent [OF _ b wf1 co1]) simp
  have c: "findNode oneWay ''c'' = None" and d: "findNode oneWay ''d'' = None"
    by code_simp+
  have hs: "tryHandshake (made ''c'' 3 [bothAll]) (made ''d'' 20 [wantsSmaller, incomingAll])"
    by code_simp
  have db: "edgeById (createBoth ''c'' 3 [bothAll] ''d'' 20 [wantsSmaller, incomingAll] oneWay) ''d'' ''b''"
    by code_simp
  have ne: "''c'' \<noteq> ''d''" "''c'' \<noteq> []" "''d'' \<noteq> []" by simp_all
  note T = createNode_order [OF wf ne(2) ne(3) ne(1) c d,
      where dA = 3 and rsA = "[bothAll]" and dB = 20 and rsB = "[wantsSmaller, incomingAll]"]
  from T hs have e1:
    "edgeById (createBoth ''c'' 3 [bothAll] ''d'' 20 [wantsSmaller, incomingAll] oneWay) ''c'' ''d''"
    and e2:
    "edgeById (createBoth ''d'' 20 [wantsSmaller, incomingAll] ''c'' 3 [bothAll] oneWay) ''c'' ''d''"
    by simp_all
  from T db have e3:
    "edgeById (createBoth ''d'' 20 [wantsSmaller, incomingAll] ''c'' 3 [bothAll] oneWay) ''d'' ''b''"
    by simp
  from T co have e4:
    "consistent (createBoth ''c'' 3 [bothAll] ''d'' 20 [wantsSmaller, incomingAll] oneWay)"
    and e5:
    "consistent (createBoth ''d'' 20 [wantsSmaller, incomingAll] ''c'' 3 [bothAll] oneWay)"
    by simp_all
  from wf c d e1 e2 db e3 co e4 e5 show ?thesis by (intro conjI) (simp_all only: simp_thms)
qed


text \<open>The scenario of section 8 of the spec ends with the edges \<open>a \<rightarrow> b\<close>, \<open>a \<rightarrow> c\<close>, \<open>c \<rightarrow> b\<close>.\<close>

lemma scenario_edges:
  "network scenario = \<lparr>nodes = [0, 1, 2], edges = [(0, [1, 2]), (1, []), (2, [1])]\<rparr>"
  by code_simp

section \<open>Removal\<close>

text \<open>Removal keeps the states well formed and the edges those that the handshake justifies.\<close>

lemma removeNode_consistent:
  assumes "consistent w"
  shows "consistent (snd (removeNode i w))"
  using assms unfolding consistent_def
  by (auto simp: removeNode_def hasEdge_Graph_removeNode nodes_Graph_removeNode split: option.splits)

lemma removeNode_wellFormed:
  assumes "wellFormed w"
  shows "wellFormed (snd (removeNode i w))"
  using assms unfolding wellFormed_def
  by (auto simp: removeNode_def hasEdge_Graph_removeNode nodes_Graph_removeNode split: option.splits)

text \<open>
  Claim C4. \<open>removeNode\<close> never throws. For an id that no node has it leaves the state as
  it is. For the id of a node it takes the node out of the node set and leaves exactly the
  edges that do not touch the node: every edge from or to the node is gone and every edge
  between two other nodes is as before; the node objects are untouched.
\<close>

theorem removeNode_frame:
  "fst (removeNode i w) = Inr ()
   \<and> (findNode w i = None \<longrightarrow> snd (removeNode i w) = w)
   \<and> (\<forall>node. findNode w i = Some node \<longrightarrow>
        node \<notin> set (nodes (network (snd (removeNode i w))))
        \<and> nodes (network (snd (removeNode i w))) = removeAll node (nodes (network w))
        \<and> heap (snd (removeNode i w)) = heap w
        \<and> (\<forall>a b. hasEdge (network (snd (removeNode i w))) a b
                  = (hasEdge (network w) a b \<and> a \<noteq> node \<and> b \<noteq> node)))"
  by (auto simp: removeNode_def hasEdge_Graph_removeNode nodes_Graph_removeNode
      split: option.splits)

theorem removeNode_frame_witness:
  "findNode oneWay ''b'' = Some 1 \<and> hasEdge (network oneWay) 0 1
   \<and> fst (removeNode ''b'' oneWay) = Inr ()
   \<and> nodes (network (snd (removeNode ''b'' oneWay))) = [0]
   \<and> \<not> hasEdge (network (snd (removeNode ''b'' oneWay))) 0 1
   \<and> findNode oneWay ''c'' = None \<and> snd (removeNode ''c'' oneWay) = oneWay"
proof -
  have b: "findNode oneWay ''b'' = Some 1" and c: "findNode oneWay ''c'' = None"
    and ns: "nodes (network oneWay) = [0, 1]" and e: "hasEdge (network oneWay) 0 1"
    by code_simp+
  show ?thesis
    using removeNode_frame [of "''b''" oneWay] removeNode_frame [of "''c''" oneWay] b c ns e
    by simp
qed

section \<open>Errors\<close>

text \<open>
  Claim C5. \<open>createNode\<close> throws for the empty id and for an id that a node of the network
  has, \<open>updateNodeData\<close> throws for an id that no node has, and \<open>bfs\<close> throws for a start id
  that no node has, with a message that ends in the id. The state that a throwing method
  of the manager leaves behind is the state it was called in; \<open>bfs\<close> has no state to change.
\<close>

theorem errors_before_mutation:
  "createNode [] d rs w = (Inl (Error ''Id is required''), w)
   \<and> (i \<noteq> [] \<and> findNode w i \<noteq> None \<longrightarrow>
        createNode i d rs w = (Inl (Error (''Duplicate node id: '' @ i)), w))
   \<and> (findNode w i = None \<longrightarrow>
        updateNodeData i d w = (Inl (Error (''No such node: '' @ i)), w))
   \<and> (findNodeById w i = None \<longrightarrow>
        bfs w (StartId i) opts st = Inl (Error (''Start node not found: '' @ i)))"
  by (simp add: createNode_def updateNodeData_def bfs_def startNode_def)

theorem errors_before_mutation_witness:
  "createNode [] 3 [] oneWay = (Inl (Error ''Id is required''), oneWay)
   \<and> findNode oneWay ''a'' \<noteq> None
   \<and> createNode ''a'' 3 [] oneWay = (Inl (Error ''Duplicate node id: a''), oneWay)
   \<and> findNode oneWay ''c'' = None
   \<and> updateNodeData ''c'' 3 oneWay = (Inl (Error ''No such node: c''), oneWay)
   \<and> findNodeById oneWay ''c'' = None
   \<and> bfs oneWay (StartId ''c'') plain () = Inl (Error ''Start node not found: c'')"
proof -
  have a: "findNode oneWay ''a'' \<noteq> None" and c: "findNode oneWay ''c'' = None"
    and c': "findNodeById oneWay ''c'' = None"
    by code_simp+
  show ?thesis
    using errors_before_mutation [of 3 "[]" oneWay "''a''" plain "()"]
      errors_before_mutation [of 3 "[]" oneWay "''c''" plain "()"] a c c'
    by simp
qed

section \<open>Recalculation\<close>

text \<open>
  Claim C2 asks \<open>updateNodeData\<close> to remove every edge that touches the node. The loop
  runs over \<^verbatim>\<open>adjacent(node)\<close>, the successors of the node, only: in \<open>oneWay\<close> the node
  \<open>b\<close> has no successor, so the edge \<open>a \<rightarrow> b\<close> survives \<^verbatim>\<open>updateNodeData('b', 50)\<close>,
  although the handshake from \<open>a\<close> (value 10, wants smaller values) to \<open>b\<close> (now 50) fails.
\<close>

theorem updateNodeData_keeps_incoming_edge:
  "findNode oneWay ''a'' = Some 0 \<and> findNode oneWay ''b'' = Some 1
   \<and> adjacent (network oneWay) 1 = Some []
   \<and> hasEdge (network oneWay) 0 1
   \<and> fst (updateNodeData ''b'' 50 oneWay) = Inr ()
   \<and> hasEdge (network (snd (updateNodeData ''b'' 50 oneWay))) 0 1
   \<and> \<not> tryHandshake (heap (snd (updateNodeData ''b'' 50 oneWay)) 0)
                     (heap (snd (updateNodeData ''b'' 50 oneWay)) 1)"
  by code_simp

text \<open>
  Claim C6 asks a second \<open>updateNodeData\<close> with the same data to change no edge. In
  \<open>incoming\<close> the first \<^verbatim>\<open>updateNodeData('n', 1)\<close> adds \<open>n \<rightarrow> x\<close> and keeps the edge
  \<open>x \<rightarrow> n\<close>, which the new data no longer justifies; the second call finds \<open>x\<close> among the
  successors of \<open>n\<close>, removes \<open>x \<rightarrow> n\<close> and does not add it again.
\<close>

theorem updateNodeData_twice_differs:
  "findNode incoming ''x'' = Some 0 \<and> findNode incoming ''n'' = Some 1
   \<and> fst (updateNodeData ''n'' 1 incoming) = Inr ()
   \<and> hasEdge (network (snd (updateNodeData ''n'' 1 incoming))) 0 1
   \<and> fst (updateNodeData ''n'' 1 (snd (updateNodeData ''n'' 1 incoming))) = Inr ()
   \<and> \<not> hasEdge (network (snd (updateNodeData ''n'' 1 (snd (updateNodeData ''n'' 1 incoming))))) 0 1"
  by code_simp

section \<open>Traversal: the loop and its invariants\<close>

lemma enqueue_news:
  "enqueue adj d visited queue = (visited @ news adj visited, queue @ map (\<lambda>n. (n, d)) (news adj visited))"
  by (induction adj arbitrary: visited queue) (auto simp: Set_add_def)

lemma set_news: "set (news adj visited) = set adj - set visited"
  by (induction adj arbitrary: visited) auto

lemma distinct_news: "distinct (news adj visited)"
  by (induction adj arbitrary: visited) (auto simp: set_news)

lemma bfsBody_cases:
  "bfsBody g opts visited order (node, depth) queue st =
     (if stops opts node depth st then Inl (order @ [node], after opts node depth st)
      else if expands opts node depth (after opts node depth st) then
        (case adjacent g node of
           None \<Rightarrow> Inr (visited, order @ [node], queue, after opts node depth st)
         | Some adj \<Rightarrow> Inr (visited @ news adj visited, order @ [node],
               queue @ map (\<lambda>n. (n, depth + 1)) (news adj visited), after opts node depth st))
      else Inr (visited, order @ [node], queue, after opts node depth st))"
  by (auto simp: bfsBody_def Let_def stops_def after_def expands_def enqueue_news split: option.splits)

lemma bfsLoop_Cons:
  "bfsLoop g opts visited order ((node, depth) # queue) st =
     (if stops opts node depth st then (order @ [node], after opts node depth st)
      else if expands opts node depth (after opts node depth st) then
        (case adjacent g node of
           None \<Rightarrow> bfsLoop g opts visited (order @ [node]) queue (after opts node depth st)
         | Some adj \<Rightarrow> bfsLoop g opts (visited @ news adj visited) (order @ [node])
               (queue @ map (\<lambda>n. (n, depth + 1)) (news adj visited)) (after opts node depth st))
      else bfsLoop g opts visited (order @ [node]) queue (after opts node depth st))"
  by (simp add: bfsBody_cases split: option.splits)

declare bfsLoop.simps(2) [simp del]

lemma bfsLoop_induct [case_names Nil Stop Barrier NoAdj Expand]:
  assumes "\<And>g opts visited order st. P g opts visited order [] st"
    and "\<And>g opts visited order node depth queue st. stops opts node depth st \<Longrightarrow>
          P g opts visited order ((node, depth) # queue) st"
    and "\<And>g opts visited order node depth queue st.
          \<not> stops opts node depth st \<Longrightarrow> \<not> expands opts node depth (after opts node depth st) \<Longrightarrow>
          P g opts visited (order @ [node]) queue (after opts node depth st) \<Longrightarrow>
          P g opts visited order ((node, depth) # queue) st"
    and "\<And>g opts visited order node depth queue st.
          \<not> stops opts node depth st \<Longrightarrow> expands opts node depth (after opts node depth st) \<Longrightarrow>
          adjacent g node = None \<Longrightarrow>
          P g opts visited (order @ [node]) queue (after opts node depth st) \<Longrightarrow>
          P g opts visited order ((node, depth) # queue) st"
    and "\<And>g opts visited order node depth queue st adj.
          \<not> stops opts node depth st \<Longrightarrow> expands opts node depth (after opts node depth st) \<Longrightarrow>
          adjacent g node = Some adj \<Longrightarrow>
          P g opts (visited @ news adj visited) (order @ [node])
            (queue @ map (\<lambda>n. (n, depth + 1)) (news adj visited)) (after opts node depth st) \<Longrightarrow>
          P g opts visited order ((node, depth) # queue) st"
  shows "P g opts visited order queue st"
proof (induction g opts visited order queue st rule: bfsLoop.induct)
  case (1 g opts visited order st)
  then show ?case using assms(1) by simp
next
  case (2 g opts visited order item queue st)
  obtain node depth where item: "item = (node, depth)" by (cases item)
  show ?case
  proof (cases "stops opts node depth st")
    case True
    then show ?thesis unfolding item by (rule assms(2))
  next
    case ns: False
    show ?thesis
    proof (cases "expands opts node depth (after opts node depth st)")
      case False
      with ns 2 show ?thesis unfolding item bfsBody_cases by (auto intro: assms(3))
    next
      case ex: True
      show ?thesis
      proof (cases "adjacent g node")
        case None
        with ns ex 2 show ?thesis unfolding item bfsBody_cases by (auto intro: assms(4))
      next
        case (Some adj)
        with ns ex 2 show ?thesis unfolding item bfsBody_cases by (auto intro: assms(5))
      qed
    qed
  qed
qed

lemma bfsLoop_prefix:
  "\<exists>new. fst (bfsLoop g opts visited order queue st) = order @ map fst (take 1 queue) @ new"
  by (induction g opts visited order queue st rule: bfsLoop_induct)
     (auto simp: bfsLoop_Cons)

lemma bfsLoop_distinct:
  "distinct (order @ map fst queue) \<Longrightarrow> set order \<union> fst ` set queue \<subseteq> set visited \<Longrightarrow>
   distinct (fst (bfsLoop g opts visited order queue st))"
proof (induction g opts visited order queue st rule: bfsLoop_induct)
  case (Expand g opts visited order node depth queue st adj)
  have "distinct ((order @ [node]) @ map fst (queue @ map (\<lambda>n. (n, depth + 1)) (news adj visited)))"
    using Expand.prems by (auto simp: distinct_news set_news comp_def)
  moreover have "set (order @ [node]) \<union> fst ` set (queue @ map (\<lambda>n. (n, depth + 1)) (news adj visited))
      \<subseteq> set (visited @ news adj visited)"
    using Expand.prems by (auto simp: set_news)
  ultimately show ?case
    using Expand.IH Expand.hyps by (simp add: bfsLoop_Cons)
qed (auto simp: bfsLoop_Cons)

lemma bfsLoop_recording_calls:
  "visit opts = Some (recording f) \<Longrightarrow> map fst (snd st) = order \<Longrightarrow>
   map fst (snd (snd (bfsLoop g opts visited order queue st))) = fst (bfsLoop g opts visited order queue st)"
  by (induction g opts visited order queue st rule: bfsLoop_induct)
     (auto simp: bfsLoop_Cons after_def recording_def)

lemma recorded_stops:
  "stops (recorded f opts) node depth st = stops (withVisit f opts) node depth (fst st)"
  by (simp add: stops_def withVisit_def recorded_def recording_def)

lemma recorded_after:
  "fst (after (recorded f opts) node depth st) = after (withVisit f opts) node depth (fst st)"
  by (simp add: after_def withVisit_def recorded_def recording_def)

lemma recorded_expands:
  "expands (recorded f opts) node depth st = expands (withVisit f opts) node depth (fst st)"
  by (cases "expand opts") (simp_all add: expands_def withVisit_def recorded_def beside_def)

lemma bfsLoop_recorded_same:
  "topts = recorded f opts \<Longrightarrow>
   bfsLoop g (withVisit f opts) visited order queue (fst st)
     = (fst (bfsLoop g topts visited order queue st), fst (snd (bfsLoop g topts visited order queue st)))"
  by (induction g topts visited order queue st rule: bfsLoop_induct)
     (simp_all add: bfsLoop_Cons recorded_stops recorded_expands recorded_after)

lemma bfsLoop_depths:
  "maxDepth opts = Some m \<Longrightarrow> visit opts = Some (recording f) \<Longrightarrow>
   \<forall>d \<in> snd ` set queue \<union> snd ` set (snd st). int d \<le> max m 0 \<Longrightarrow>
   \<forall>d \<in> snd ` set (snd (snd (bfsLoop g opts visited order queue st))). int d \<le> max m 0"
proof (induction g opts visited order queue st rule: bfsLoop_induct)
  case (Nil g opts visited order st)
  then show ?case by simp
next
  case (Stop g opts visited order node depth queue st)
  then show ?case by (auto simp: bfsLoop_Cons after_def recording_def)
next
  case (Barrier g opts visited order node depth queue st)
  have "\<forall>d \<in> snd ` set queue \<union> snd ` set (snd (after opts node depth st)). int d \<le> max m 0"
    using Barrier.prems by (auto simp: after_def recording_def)
  with Barrier show ?case by (simp add: bfsLoop_Cons)
next
  case (NoAdj g opts visited order node depth queue st)
  have "\<forall>d \<in> snd ` set queue \<union> snd ` set (snd (after opts node depth st)). int d \<le> max m 0"
    using NoAdj.prems by (auto simp: after_def recording_def)
  with NoAdj show ?case by (simp add: bfsLoop_Cons)
next
  case (Expand g opts visited order node depth queue st adj)
  have "int depth < m" using Expand.hyps Expand.prems by (simp add: expands_def)
  then have "\<forall>d \<in> snd ` set (queue @ map (\<lambda>n. (n, depth + 1)) (news adj visited))
       \<union> snd ` set (snd (after opts node depth st)). int d \<le> max m 0"
    using Expand.prems by (auto simp: after_def recording_def)
  with Expand show ?case by (simp add: bfsLoop_Cons)
qed

lemma traced_stops:
  "stops (traced opts) node depth st = stops opts node depth (fst st)"
  by (cases "visit opts") (simp_all add: stops_def traced_def tracing_def Let_def)

lemma traced_after:
  "after (traced opts) node depth st =
     (after opts node depth (fst st), snd st @ [(node, depth, after opts node depth (fst st))])"
  by (cases "visit opts") (simp_all add: after_def traced_def tracing_def Let_def)

lemma traced_expands:
  "expands (traced opts) node depth st = expands opts node depth (fst st)"
  by (cases "expand opts") (simp_all add: expands_def traced_def beside_def)

lemma bfsLoop_traced_same:
  "topts = traced opts \<Longrightarrow>
   bfsLoop g opts visited order queue (fst st)
     = (fst (bfsLoop g topts visited order queue st), fst (snd (bfsLoop g topts visited order queue st)))"
  by (induction g topts visited order queue st rule: bfsLoop_induct)
     (simp_all add: bfsLoop_Cons traced_stops traced_expands traced_after)

lemma bfsLoop_traced_nodes:
  "topts = traced opts \<Longrightarrow> map fst (snd st) = order \<Longrightarrow>
   map fst (snd (snd (bfsLoop g topts visited order queue st))) = fst (bfsLoop g topts visited order queue st)"
  by (induction g topts visited order queue st rule: bfsLoop_induct)
     (simp_all add: bfsLoop_Cons traced_after)

lemma bfsLoop_traced_first:
  "topts = traced opts \<Longrightarrow>
   \<exists>new. snd (snd (bfsLoop g topts visited order queue st))
     = snd st @ map (\<lambda>(v, d). (v, d, after opts v d (fst st))) (take 1 queue) @ new"
  by (induction g topts visited order queue st rule: bfsLoop_induct)
     (auto simp: bfsLoop_Cons traced_after)

lemma link_mono: "link g opts log x y \<Longrightarrow> set log \<subseteq> set log' \<Longrightarrow> link g opts log' x y"
  by (auto simp: link_def)

lemma rooted_mono:
  assumes "rooted g opts n log y" "set log \<subseteq> set log'"
  shows "rooted g opts n log' y"
proof -
  from assms(1) obtain r where r: "r \<in> set log" "fst r = n" "fst (snd r) = 0"
    and c: "rtranclp (link g opts log) r y"
    unfolding rooted_def by blast
  from c have "rtranclp (link g opts log') r y"
  proof (induction rule: rtranclp_induct)
    case base
    then show ?case by simp
  next
    case (step y z)
    from step(2) assms(2) have "link g opts log' y z" by (rule link_mono)
    with step(3) show ?case by (rule rtranclp.rtrancl_into_rtrancl)
  qed
  with r assms(2) show ?thesis unfolding rooted_def by blast
qed

lemma due_mono: "due g opts n log item \<Longrightarrow> set log \<subseteq> set log' \<Longrightarrow> due g opts n log' item"
  unfolding due_def by (blast intro: rooted_mono)

lemma due_rooted:
  assumes "due g opts n log (v, d)"
  shows "rooted g opts n (log @ [(v, d, s)]) (v, d, s)"
proof -
  let ?log = "log @ [(v, d, s)]"
  from assms consider (root) "v = n" "d = 0"
    | (child) x where "x \<in> set log" "rooted g opts n log x" "opened opts x"
        "hasEdge g (fst x) v" "d = Suc (fst (snd x))"
    by (auto simp: due_def)
  then show ?thesis
  proof cases
    case root
    then show ?thesis by (auto simp: rooted_def)
  next
    case child
    from child(2) have "rooted g opts n ?log x" by (rule rooted_mono) auto
    then obtain r where r: "r \<in> set ?log" "fst r = n" "fst (snd r) = 0"
      and c: "rtranclp (link g opts ?log) r x"
      unfolding rooted_def by blast
    have "link g opts ?log x (v, d, s)"
      using child by (auto simp: link_def)
    with c have "rtranclp (link g opts ?log) r (v, d, s)" by (rule rtranclp.rtrancl_into_rtrancl)
    with r show ?thesis unfolding rooted_def by blast
  qed
qed

lemma invariant_step:
  assumes "\<forall>y \<in> set log. rooted g opts n log y"
    and "\<forall>item \<in> set ((v, d) # queue). due g opts n log item"
  shows "\<forall>y \<in> set (log @ [(v, d, s)]). rooted g opts n (log @ [(v, d, s)]) y"
    and "\<forall>item \<in> set queue. due g opts n (log @ [(v, d, s)]) item"
proof -
  show "\<forall>y \<in> set (log @ [(v, d, s)]). rooted g opts n (log @ [(v, d, s)]) y"
  proof
    fix y assume "y \<in> set (log @ [(v, d, s)])"
    then consider "y \<in> set log" | "y = (v, d, s)" by auto
    then show "rooted g opts n (log @ [(v, d, s)]) y"
    proof cases
      case 1
      with assms(1) have "rooted g opts n log y" by blast
      then show ?thesis by (rule rooted_mono) auto
    next
      case 2
      from assms(2) have "due g opts n log (v, d)" by simp
      then show ?thesis unfolding 2 by (rule due_rooted)
    qed
  qed
  show "\<forall>item \<in> set queue. due g opts n (log @ [(v, d, s)]) item"
    using assms(2) by (auto intro: due_mono)
qed

lemma bfsLoop_rooted:
  "topts = traced opts \<Longrightarrow>
   \<forall>y \<in> set (snd st). rooted g opts n (snd st) y \<Longrightarrow>
   \<forall>item \<in> set queue. due g opts n (snd st) item \<Longrightarrow>
   \<forall>y \<in> set (snd (snd (bfsLoop g topts visited order queue st))).
      rooted g opts n (snd (snd (bfsLoop g topts visited order queue st))) y"
proof (induction g topts visited order queue st rule: bfsLoop_induct)
  case (Nil g topts visited order st)
  then show ?case by simp
next
  case (Stop g topts visited order node depth queue st)
  from invariant_step(1)[OF Stop.prems(2,3)] Stop.hyps Stop.prems(1)
  show ?case by (simp add: bfsLoop_Cons traced_after)
next
  case (Barrier g topts visited order node depth queue st)
  note inv = invariant_step[OF Barrier.prems(2,3), of "after opts node depth (fst st)"]
  from Barrier.IH[OF Barrier.prems(1)] inv Barrier.hyps Barrier.prems(1)
  show ?case by (simp add: bfsLoop_Cons traced_after)
next
  case (NoAdj g topts visited order node depth queue st)
  note inv = invariant_step[OF NoAdj.prems(2,3), of "after opts node depth (fst st)"]
  from NoAdj.IH[OF NoAdj.prems(1)] inv NoAdj.hyps NoAdj.prems(1)
  show ?case by (simp add: bfsLoop_Cons traced_after)
next
  case (Expand g topts visited order node depth queue st adj)
  let ?s = "after opts node depth (fst st)"
  let ?y = "(node, depth, ?s)"
  let ?log = "snd st @ [?y]"
  note inv = invariant_step[OF Expand.prems(2,3), of ?s]
  have op: "opened opts ?y"
    using Expand.hyps(2) Expand.prems(1) by (simp add: opened_def traced_expands traced_after)
  have "\<forall>item \<in> set (map (\<lambda>n. (n, depth + 1)) (news adj visited)). due g opts n ?log item"
  proof
    fix item assume "item \<in> set (map (\<lambda>n. (n, depth + 1)) (news adj visited))"
    then obtain c where c: "c \<in> set adj" "item = (c, Suc depth)" by (auto simp: set_news)
    have "hasEdge g node c" using Expand.hyps(3) c(1) by (simp add: hasEdge_def)
    with inv(1) op c(2) show "due g opts n ?log item"
      unfolding due_def by (intro disjI2 bexI[of _ ?y]) auto
  qed
  with inv(2) have q: "\<forall>item \<in> set (queue @ map (\<lambda>n. (n, depth + 1)) (news adj visited)).
      due g opts n ?log item" by auto
  from Expand.IH[OF Expand.prems(1)] inv(1) q Expand.hyps Expand.prems(1)
  show ?case by (simp add: bfsLoop_Cons traced_after)
qed


lemma same_node_same_entry:
  "distinct (map fst log) \<Longrightarrow> x \<in> set log \<Longrightarrow> b \<in> set log \<Longrightarrow> fst x = fst b \<Longrightarrow> x = b"
  by (auto simp: distinct_map dest: inj_onD)

lemma chain_avoids:
  assumes "rtranclp (link g opts log) r y" and "distinct (map fst log)"
    and "b \<in> set log" and "\<not> opened opts b"
  shows "rtranclp (\<lambda>a c. hasEdge g a c \<and> a \<noteq> fst b) (fst r) (fst y)"
  using assms(1)
proof (induction rule: rtranclp_induct)
  case base
  then show ?case by simp
next
  case (step y z)
  from step(2) have y: "y \<in> set log" "opened opts y" "hasEdge g (fst y) (fst z)"
    by (auto simp: link_def)
  have "fst y \<noteq> fst b"
  proof
    assume "fst y = fst b"
    with same_node_same_entry[OF assms(2) y(1) assms(3)] have "y = b" by simp
    with y(2) assms(4) show False by simp
  qed
  with y(3) have "hasEdge g (fst y) (fst z) \<and> fst y \<noteq> fst b" by simp
  with step(3) show ?case by (rule rtranclp.rtrancl_into_rtrancl)
qed

section \<open>Traversal\<close>

lemma bfs_run:
  "bfs w s opts st = Inr r \<Longrightarrow>
   \<exists>n. startNode w s = Some n \<and> bfsLoop (network w) opts [n] [] [(n, 0)] st = r"
  by (auto simp: bfs_def split: option.splits)

text \<open>
  Claim C7. When \<open>maxDepth\<close> is given and the node taken off the queue has a depth of at
  least \<open>maxDepth\<close>, the node is appended to the output and the visitor runs for it, and the
  loop goes on (unless the visitor stops it) with the visited set and the rest of the queue
  as they were: no neighbour is enqueued. Hence no node is visited at a depth beyond
  \<open>maxDepth\<close> (the start, of depth 0, always is). On the chain \<^verbatim>\<open>a->b->c->d\<close> the
  traversal from \<open>a\<close> gives \<^verbatim>\<open>[a, b]\<close> for \<open>maxDepth = 1\<close> and \<^verbatim>\<open>[a, b, c]\<close> for
  \<open>maxDepth = 2\<close>.
\<close>

theorem bfs_maxDepth:
  "(maxDepth opts = Some m \<and> m \<le> int depth \<longrightarrow>
      bfsLoop g opts visited order ((node, depth) # queue) st =
        (if stops opts node depth st then (order @ [node], after opts node depth st)
         else bfsLoop g opts visited (order @ [node]) queue (after opts node depth st)))
   \<and> (maxDepth optsR = Some m \<and> visit optsR = Some (recording f)
        \<and> bfs w s optsR (st0, []) = Inr (result, st1, calls)
      \<longrightarrow> (\<forall>d \<in> snd ` set calls. int d \<le> max m 0))
   \<and> bfsIds chain (StartNode 0) depth1 () = Inr [''a'', ''b'']
   \<and> bfsIds chain (StartNode 0) depth2 () = Inr [''a'', ''b'', ''c'']"
proof -
  have step: "maxDepth opts = Some m \<and> m \<le> int depth \<longrightarrow>
      bfsLoop g opts visited order ((node, depth) # queue) st =
        (if stops opts node depth st then (order @ [node], after opts node depth st)
         else bfsLoop g opts visited (order @ [node]) queue (after opts node depth st))"
    by (simp add: bfsLoop_Cons expands_def)
  have bound: "maxDepth optsR = Some m \<and> visit optsR = Some (recording f)
        \<and> bfs w s optsR (st0, []) = Inr (result, st1, calls)
      \<longrightarrow> (\<forall>d \<in> snd ` set calls. int d \<le> max m 0)"
  proof (intro impI, elim conjE)
    assume m: "maxDepth optsR = Some m" and v: "visit optsR = Some (recording f)"
      and "bfs w s optsR (st0, []) = Inr (result, st1, calls)"
    from bfs_run[OF this(3)] obtain n
      where run: "bfsLoop (network w) optsR [n] [] [(n, 0)] (st0, []) = (result, st1, calls)"
      by blast
    have "\<forall>d \<in> snd ` set [(n, 0::nat)] \<union> snd ` set (snd (st0, [])). int d \<le> max m 0"
      by simp
    from bfsLoop_depths[OF m v this, of "network w" "[n]" "[]"] run
    show "\<forall>d \<in> snd ` set calls. int d \<le> max m 0" by simp
  qed
  have ex1: "bfsIds chain (StartNode 0) depth1 () = Inr [''a'', ''b'']" by code_simp
  have ex2: "bfsIds chain (StartNode 0) depth2 () = Inr [''a'', ''b'', ''c'']" by code_simp
  from step bound ex1 ex2 show ?thesis by blast
qed

theorem bfs_maxDepth_witness:
  "maxDepth depth1 = Some 1 \<and> (1::int) \<le> int 1
   \<and> bfsLoop (network chain) depth1 [0, 1] [0] [(1, 1)] () = ([0, 1], ())
   \<and> bfs chain (StartNode 0) (recorded silent depth1) ((), [])
        = Inr ([0, 1], (), [(0, 0), (1, 1)])
   \<and> int (snd (0::ref, 0::nat)) \<le> max 1 0 \<and> int (snd (1::ref, 1::nat)) \<le> max 1 0"
proof -
  have m: "maxDepth depth1 = Some 1 \<and> (1::int) \<le> int 1"
    by (simp add: depth1_def)
  have mR: "maxDepth (recorded silent depth1) = Some 1"
    and vR: "visit (recorded silent depth1) = Some (recording silent)"
    by (simp_all add: recorded_def depth1_def)
  have run: "bfs chain (StartNode 0) (recorded silent depth1) ((), [])
        = Inr ([0, 1], (), [(0, 0), (1, 1)])"
    by code_simp
  have no: "\<not> stops depth1 1 1 ()" and af: "after depth1 1 1 () = ()"
    by (simp_all add: stops_def depth1_def)
  note T = bfs_maxDepth [where opts = depth1 and m = 1 and depth = 1 and node = 1
      and g = "network chain" and visited = "[0, 1]" and order = "[0]" and queue = "[]"
      and st = "()" and optsR = "recorded silent depth1" and f = silent
      and w = chain and s = "StartNode 0" and ?st0.0 = "()" and result = "[0, 1]" and ?st1.0 = "()"
      and calls = "[(0, 0), (1, 1)]"]
  note T [THEN conjunct1, THEN mp, OF m]
  with no have a: "bfsLoop (network chain) depth1 [0, 1] [0] [(1, 1)] () = ([0, 1], ())"
    by simp
  have b: "\<forall>d \<in> snd ` set [(0::ref, 0::nat), (1, 1)]. int d \<le> max 1 0"
    by (rule T [THEN conjunct2, THEN conjunct1, THEN mp, OF conjI [OF mR conjI [OF vR run]]])
  from b have c: "int (snd (0::ref, 0::nat)) \<le> max 1 0 \<and> int (snd (1::ref, 1::nat)) \<le> max 1 0"
    by simp
  from m a run c show ?thesis by (intro conjI) (simp_all only: simp_thms)
qed

text \<open>
  Claim C8. For the node taken off the queue the loop appends the node to the output, then
  runs the visitor, and only then considers the neighbours. When the visitor answers
  \<^verbatim>\<open>false\<close>, the loop returns at once: the output so far with that node appended,
  whatever the queue and the neighbours of the node are. When it answers anything else,
  the loop goes on with the node in the output and the state that the visitor left:
  \<open>maxDepth\<close> is compared, \<open>expand\<close> is asked in the state that the visitor left, and the
  neighbours are enqueued after that. With the visitor made to record its calls, the nodes
  of the recorded calls are the output, in order, and the output has no repetition: the
  visitor runs exactly once for every node of the output and for no other, and the
  recording changes neither the output nor the visitor's own state. In the network
  \<^verbatim>\<open>a <-> b <-> c\<close> the traversal from \<open>c\<close> that stops at \<open>b\<close> returns \<^verbatim>\<open>[c, b]\<close>
  after the calls \<^verbatim>\<open>(c, 0), (b, 1)\<close>; without the visitor it also reaches \<open>a\<close>. On the
  chain \<^verbatim>\<open>a->b->c\<close>, with a visitor that notes the node and an \<open>expand\<close> that refuses
  when the node noted last is \<open>b\<close>, the output is \<^verbatim>\<open>[a, b]\<close>: asked before the visitor,
  \<open>expand\<close> would have let \<open>c\<close> in.
\<close>

theorem bfs_visit:
  "(visit opts = Some f \<and> fst (f node depth st) = Some False \<longrightarrow>
      bfsLoop g opts visited order ((node, depth) # queue) st
        = (order @ [node], snd (f node depth st)))
   \<and> (visit opts = Some f \<and> fst (f node depth st) \<noteq> Some False \<longrightarrow>
      bfsLoop g opts visited order ((node, depth) # queue) st =
        (if (case maxDepth opts of None \<Rightarrow> False | Some m \<Rightarrow> m \<le> int depth)
           then bfsLoop g opts visited (order @ [node]) queue (snd (f node depth st))
         else if (case expand opts of None \<Rightarrow> False
                  | Some e \<Rightarrow> \<not> e node depth (snd (f node depth st)))
           then bfsLoop g opts visited (order @ [node]) queue (snd (f node depth st))
         else (case adjacent g node of
                 None \<Rightarrow> bfsLoop g opts visited (order @ [node]) queue (snd (f node depth st))
               | Some adj \<Rightarrow>
                   bfsLoop g opts (fst (enqueue adj (depth + 1) visited queue)) (order @ [node])
                     (snd (enqueue adj (depth + 1) visited queue)) (snd (f node depth st)))))
   \<and> (bfs w s (recorded f' opts') (st0, []) = Inr (result, st', calls) \<longrightarrow>
        map fst calls = result \<and> distinct result
        \<and> bfs w s (withVisit f' opts') st0 = Inr (result, st'))
   \<and> bfs linked (StartNode 2) (recorded stopAtB plain) ((), [])
        = Inr ([2, 1], (), [(2, 0), (1, 1)])
   \<and> bfsIds linked (StartNode 2) (withVisit stopAtB plain) () = Inr [''c'', ''b'']
   \<and> bfsIds linked (StartNode 2) plain () = Inr [''c'', ''b'', ''a'']
   \<and> bfsIds chain3 (StartNode 0) lastSeen 0 = Inr [''a'', ''b'']"
proof -
  have stop: "visit opts = Some f \<and> fst (f node depth st) = Some False \<longrightarrow>
      bfsLoop g opts visited order ((node, depth) # queue) st
        = (order @ [node], snd (f node depth st))"
    by (simp add: bfsLoop_Cons stops_def after_def)
  have goon: "visit opts = Some f \<and> fst (f node depth st) \<noteq> Some False \<longrightarrow>
      bfsLoop g opts visited order ((node, depth) # queue) st =
        (if (case maxDepth opts of None \<Rightarrow> False | Some m \<Rightarrow> m \<le> int depth)
           then bfsLoop g opts visited (order @ [node]) queue (snd (f node depth st))
         else if (case expand opts of None \<Rightarrow> False
                  | Some e \<Rightarrow> \<not> e node depth (snd (f node depth st)))
           then bfsLoop g opts visited (order @ [node]) queue (snd (f node depth st))
         else (case adjacent g node of
                 None \<Rightarrow> bfsLoop g opts visited (order @ [node]) queue (snd (f node depth st))
               | Some adj \<Rightarrow>
                   bfsLoop g opts (fst (enqueue adj (depth + 1) visited queue)) (order @ [node])
                     (snd (enqueue adj (depth + 1) visited queue)) (snd (f node depth st))))"
    by (auto simp: bfsLoop.simps(2) bfsBody_def Let_def split: option.splits)
  have once: "bfs w s (recorded f' opts') (st0, []) = Inr (result, st', calls) \<longrightarrow>
        map fst calls = result \<and> distinct result
        \<and> bfs w s (withVisit f' opts') st0 = Inr (result, st')"
  proof
    let ?opts = "recorded f' opts'"
    assume "bfs w s ?opts (st0, []) = Inr (result, st', calls)"
    from bfs_run[OF this] obtain n where n: "startNode w s = Some n"
      and run: "bfsLoop (network w) ?opts [n] [] [(n, 0)] (st0, []) = (result, st', calls)"
      by blast
    have v: "visit ?opts = Some (recording f')" by (simp add: recorded_def)
    from bfsLoop_recording_calls[OF v, of "(st0, [])" "[]" "network w" "[n]" "[(n, 0)]"] run
    have c: "map fst calls = result" by simp
    from bfsLoop_distinct[of "[]" "[(n, 0)]" "[n]" "network w" ?opts "(st0, [])"] run
    have d: "distinct result" by simp
    from bfsLoop_recorded_same[OF refl, of "network w" f' opts' "[n]" "[]" "[(n, 0)]" "(st0, [])"] run
    have "bfsLoop (network w) (withVisit f' opts') [n] [] [(n, 0)] st0 = (result, st')" by simp
    with n have "bfs w s (withVisit f' opts') st0 = Inr (result, st')" by (simp add: bfs_def)
    with c d show "map fst calls = result \<and> distinct result
        \<and> bfs w s (withVisit f' opts') st0 = Inr (result, st')" by blast
  qed
  have ex1: "bfs linked (StartNode 2) (recorded stopAtB plain) ((), [])
        = Inr ([2, 1], (), [(2, 0), (1, 1)])" by code_simp
  have ex2: "bfsIds linked (StartNode 2) (withVisit stopAtB plain) () = Inr [''c'', ''b'']"
    by code_simp
  have ex3: "bfsIds linked (StartNode 2) plain () = Inr [''c'', ''b'', ''a'']"
    by code_simp
  have ex4: "bfsIds chain3 (StartNode 0) lastSeen 0 = Inr [''a'', ''b'']"
    by code_simp
  from stop goon once ex1 ex2 ex3 ex4 show ?thesis by blast
qed

theorem bfs_visit_witness:
  "visit (withVisit stopAtB plain) = Some stopAtB \<and> fst (stopAtB 1 1 ()) = Some False
   \<and> bfsLoop (network linked) (withVisit stopAtB plain) [2, 1] [2] [(1, 1)] () = ([2, 1], ())
   \<and> fst (the (visit lastSeen) 1 1 0) \<noteq> Some False
   \<and> bfsLoop (network chain3) lastSeen [0, 1] [0] [(1, 1)] 0 = ([0, 1], 1)
   \<and> bfs linked (StartNode 2) (recorded stopAtB plain) ((), [])
        = Inr ([2, 1], (), [(2, 0), (1, 1)])
   \<and> map fst [(2::ref, 0::nat), (1, 1)] = [2, 1] \<and> distinct [2::ref, 1]
   \<and> bfs linked (StartNode 2) (withVisit stopAtB plain) () = Inr ([2, 1], ())"
proof -
  have v: "visit (withVisit stopAtB plain) = Some stopAtB"
    by (simp add: withVisit_def)
  have f: "fst (stopAtB 1 1 ()) = Some False"
    by code_simp
  have run: "bfs linked (StartNode 2) (recorded stopAtB plain) ((), [])
        = Inr ([2, 1], (), [(2, 0), (1, 1)])"
    by code_simp
  note T = bfs_visit [where opts = "withVisit stopAtB plain" and f = stopAtB and node = 1
      and depth = 1 and st = "()" and g = "network linked" and visited = "[2, 1]"
      and order = "[2]" and queue = "[]" and w = linked and s = "StartNode 2"
      and opts' = plain and f' = stopAtB and ?st0.0 = "()" and result = "[2, 1]" and st' = "()"
      and calls = "[(2, 0), (1, 1)]"]
  note T [THEN conjunct1, THEN mp, OF conjI [OF v f]]
  then have a: "bfsLoop (network linked) (withVisit stopAtB plain) [2, 1] [2] [(1, 1)] ()
      = ([2, 1], ())"
    by simp
  have b: "map fst [(2::ref, 0::nat), (1, 1)] = [2, 1] \<and> distinct [2::ref, 1]
      \<and> bfs linked (StartNode 2) (withVisit stopAtB plain) () = Inr ([2, 1], ())"
    by (rule T [THEN conjunct2, THEN conjunct2, THEN conjunct1, THEN mp, OF run])
  have vl: "visit lastSeen = Some (\<lambda>n d last. (None, n))"
    and el: "expand lastSeen = Some (\<lambda>n d last. node_id (heap chain3 last) \<noteq> ''b'')"
    and ml: "maxDepth lastSeen = None"
    by (simp_all add: lastSeen_def)
  have nl: "fst ((\<lambda>n d last. (None, n)) (1::ref) (1::nat) (0::ref)) \<noteq> Some False"
    by simp
  have isb: "node_id (heap chain3 (Suc 0)) = ''b''"
    by code_simp
  note U = bfs_visit [where opts = lastSeen and f = "\<lambda>n d last. (None, n)" and node = 1
      and depth = 1 and st = 0 and g = "network chain3" and visited = "[0, 1]"
      and order = "[0]" and queue = "[]"]
  note U [THEN conjunct2, THEN conjunct1, THEN mp, OF conjI [OF vl nl]]
  then have c: "bfsLoop (network chain3) lastSeen [0, 1] [0] [(1, 1)] 0 = ([0, 1], 1)"
    by (simp add: el ml isb)
  have d: "fst (the (visit lastSeen) 1 1 0) \<noteq> Some False"
    by (simp add: vl)
  from v f a d c run b show ?thesis by (intro conjI) (simp_all only: simp_thms)
qed

text \<open>
  Claim C9. Take the trace of a traversal: one entry for every node taken off the queue,
  with its depth and the state in which \<open>expand\<close> is asked for it. Writing the trace
  changes neither the output nor the caller's state. The trace begins with the start node
  at depth 0, its nodes are the output, in order, and the output has no repetition. A
  chain of steps leads from the first entry to every entry, each step going along an edge
  of the network to an entry one level deeper, from an entry whose neighbours \<open>maxDepth\<close>
  and \<open>expand\<close> did not keep off the queue. So when \<open>expand\<close> answered false for a node,
  that node is in the output, and every node of the output is reached from the start
  along edges of which none leaves that node: a node that is reachable only through it
  is not in the output. When \<open>expand\<close> answers false for the node taken off the queue,
  the node is appended to the output and the loop goes on with the visited set and the
  rest of the queue as they were. With \<open>expand\<close> false at \<open>b\<close>, the output is
  \<^verbatim>\<open>[a, b]\<close> on the chain \<^verbatim>\<open>a->b->c\<close> and \<^verbatim>\<open>[s, b]\<close> on \<^verbatim>\<open>s->b->u<->v\<close>; with
  \<open>expand\<close> false at depth 0 the output is the start alone.
\<close>

theorem bfs_expand:
  "(bfs w s opts st = Inr (result, st') \<longrightarrow>
      (\<exists>n s0 rest.
         startNode w s = Some n
         \<and> bfs w s (traced opts) (st, []) = Inr (result, st', (n, 0, s0) # rest)
         \<and> map fst ((n, 0, s0) # rest) = result \<and> distinct result
         \<and> (\<forall>y \<in> set ((n, 0, s0) # rest).
               rtranclp (link (network w) opts ((n, 0, s0) # rest)) (n, 0, s0) y)
         \<and> (\<forall>u d su e. (u, d, su) \<in> set ((n, 0, s0) # rest) \<and> expand opts = Some e
                 \<and> \<not> e u d su \<longrightarrow>
               u \<in> set result
               \<and> (\<forall>v \<in> set result. rtranclp (\<lambda>a c. hasEdge (network w) a c \<and> a \<noteq> u) n v))))
   \<and> (expand opts = Some e \<and> \<not> e node depth (after opts node depth st) \<longrightarrow>
        bfsLoop g opts visited order ((node, depth) # queue) st =
          (if stops opts node depth st then (order @ [node], after opts node depth st)
           else bfsLoop g opts visited (order @ [node]) queue (after opts node depth st)))
   \<and> bfsIds chain3 (StartNode 0) notB () = Inr [''a'', ''b'']
   \<and> bfsIds chain3 (StartNode 0) plain () = Inr [''a'', ''b'', ''c'']
   \<and> bfsIds chain3 (StartNode 0) notRoot () = Inr [''a'']
   \<and> bfsIds behind (StartNode 0) barrierB () = Inr [''s'', ''b'']
   \<and> bfsIds behind (StartNode 0) plain () = Inr [''s'', ''b'', ''u'', ''v'']"
proof -
  have shape: "bfs w s opts st = Inr (result, st') \<longrightarrow>
      (\<exists>n s0 rest.
         startNode w s = Some n
         \<and> bfs w s (traced opts) (st, []) = Inr (result, st', (n, 0, s0) # rest)
         \<and> map fst ((n, 0, s0) # rest) = result \<and> distinct result
         \<and> (\<forall>y \<in> set ((n, 0, s0) # rest).
               rtranclp (link (network w) opts ((n, 0, s0) # rest)) (n, 0, s0) y)
         \<and> (\<forall>u d su e. (u, d, su) \<in> set ((n, 0, s0) # rest) \<and> expand opts = Some e
                 \<and> \<not> e u d su \<longrightarrow>
               u \<in> set result
               \<and> (\<forall>v \<in> set result. rtranclp (\<lambda>a c. hasEdge (network w) a c \<and> a \<noteq> u) n v)))"
  proof
    assume "bfs w s opts st = Inr (result, st')"
    from bfs_run[OF this] obtain n where n: "startNode w s = Some n"
      and run: "bfsLoop (network w) opts [n] [] [(n, 0)] st = (result, st')"
      by blast
    let ?g = "network w"
    let ?T = "bfsLoop ?g (traced opts) [n] [] [(n, 0)] (st, [])"
    define log where "log = snd (snd ?T)"
    from bfsLoop_traced_same[OF refl, of ?g opts "[n]" "[]" "[(n, 0)]" "(st, [])"] run
    have T: "?T = (result, st', log)"
      by (simp add: log_def prod_eq_iff)
    then have trun: "bfs w s (traced opts) (st, []) = Inr (result, st', log)"
      using n by (simp add: bfs_def)
    from bfsLoop_traced_first[OF refl, of ?g opts "[n]" "[]" "[(n, 0)]" "(st, [])"] T
    obtain s0 rest where log: "log = (n, 0, s0) # rest" by auto
    from bfsLoop_traced_nodes[OF refl, of "(st, [])" "[]" ?g opts "[n]" "[(n, 0)]"] T
    have nodes: "map fst log = result" by simp
    from bfsLoop_distinct[of "[]" "[(n, 0)]" "[n]" ?g opts st] run
    have dist: "distinct result" by simp
    have "\<forall>y \<in> set (snd (st, [])). rooted ?g opts n (snd (st, [])) y" by simp
    moreover have "\<forall>item \<in> set [(n, 0)]. due ?g opts n (snd (st, [])) item"
      by (simp add: due_def)
    ultimately have "\<forall>y \<in> set (snd (snd ?T)). rooted ?g opts n (snd (snd ?T)) y"
      by (rule bfsLoop_rooted[OF refl])
    then have rooted: "\<forall>y \<in> set log. rooted ?g opts n log y"
      by (simp add: log_def)
    have chains: "\<forall>y \<in> set log. rtranclp (link ?g opts log) (n, 0, s0) y"
    proof
      fix y assume "y \<in> set log"
      with rooted obtain r where r: "r \<in> set log" "fst r = n"
        and c: "rtranclp (link ?g opts log) r y"
        unfolding rooted_def by blast
      have "(n, 0, s0) \<in> set log" by (simp add: log)
      with r nodes dist have "r = (n, 0, s0)"
        by (intro same_node_same_entry[of log]) auto
      with c show "rtranclp (link ?g opts log) (n, 0, s0) y" by simp
    qed
    have barrier: "\<forall>u d su e. (u, d, su) \<in> set log \<and> expand opts = Some e \<and> \<not> e u d su \<longrightarrow>
        u \<in> set result \<and> (\<forall>v \<in> set result. rtranclp (\<lambda>a c. hasEdge ?g a c \<and> a \<noteq> u) n v)"
    proof (intro allI impI, elim conjE)
      fix u d su e
      assume b: "(u, d, su) \<in> set log" and e: "expand opts = Some e" "\<not> e u d su"
      from e have no: "\<not> opened opts (u, d, su)" by (simp add: opened_def expands_def)
      from b nodes have u: "u \<in> set result" by force
      have "\<forall>v \<in> set result. rtranclp (\<lambda>a c. hasEdge ?g a c \<and> a \<noteq> u) n v"
      proof
        fix v assume "v \<in> set result"
        with nodes obtain y where y: "y \<in> set log" "fst y = v" by auto
        with chains have "rtranclp (link ?g opts log) (n, 0, s0) y" by blast
        from chain_avoids[OF this _ b no] nodes dist y(2)
        show "rtranclp (\<lambda>a c. hasEdge ?g a c \<and> a \<noteq> u) n v" by simp
      qed
      with u show "u \<in> set result
          \<and> (\<forall>v \<in> set result. rtranclp (\<lambda>a c. hasEdge ?g a c \<and> a \<noteq> u) n v)" ..
    qed
    from n trun nodes dist chains barrier
    show "\<exists>n s0 rest.
         startNode w s = Some n
         \<and> bfs w s (traced opts) (st, []) = Inr (result, st', (n, 0, s0) # rest)
         \<and> map fst ((n, 0, s0) # rest) = result \<and> distinct result
         \<and> (\<forall>y \<in> set ((n, 0, s0) # rest).
               rtranclp (link (network w) opts ((n, 0, s0) # rest)) (n, 0, s0) y)
         \<and> (\<forall>u d su e. (u, d, su) \<in> set ((n, 0, s0) # rest) \<and> expand opts = Some e
                 \<and> \<not> e u d su \<longrightarrow>
               u \<in> set result
               \<and> (\<forall>v \<in> set result. rtranclp (\<lambda>a c. hasEdge (network w) a c \<and> a \<noteq> u) n v))"
      unfolding log by blast
  qed
  have barrier: "expand opts = Some e \<and> \<not> e node depth (after opts node depth st) \<longrightarrow>
        bfsLoop g opts visited order ((node, depth) # queue) st =
          (if stops opts node depth st then (order @ [node], after opts node depth st)
           else bfsLoop g opts visited (order @ [node]) queue (after opts node depth st))"
    by (simp add: bfsLoop_Cons expands_def)
  have ex1: "bfsIds chain3 (StartNode 0) notB () = Inr [''a'', ''b'']" by code_simp
  have ex2: "bfsIds chain3 (StartNode 0) plain () = Inr [''a'', ''b'', ''c'']" by code_simp
  have ex3: "bfsIds chain3 (StartNode 0) notRoot () = Inr [''a'']" by code_simp
  have ex4: "bfsIds behind (StartNode 0) barrierB () = Inr [''s'', ''b'']" by code_simp
  have ex5: "bfsIds behind (StartNode 0) plain () = Inr [''s'', ''b'', ''u'', ''v'']"
    by code_simp
  from shape barrier ex1 ex2 ex3 ex4 ex5 show ?thesis by blast
qed

theorem bfs_expand_witness:
  "bfs chain3 (StartNode 0) notB () = Inr ([0, 1], ())
   \<and> bfs chain3 (StartNode 0) (traced notB) ((), []) = Inr ([0, 1], (), [(0, 0, ()), (1, 1, ())])
   \<and> rtranclp (link (network chain3) notB [(0, 0, ()), (1, 1, ())]) (0, 0, ()) (1, 1, ())
   \<and> expand notB = Some (\<lambda>n d st. node_id (heap chain3 n) \<noteq> ''b'')
   \<and> \<not> node_id (heap chain3 1) \<noteq> ''b''
   \<and> (1::ref) \<in> set [0, 1]
   \<and> rtranclp (\<lambda>a c. hasEdge (network chain3) a c \<and> a \<noteq> 1) 0 1
   \<and> bfsLoop (network chain3) notB [0, 1] [0] [(1, 1)] () = ([0, 1], ())"
proof -
  have run: "bfs chain3 (StartNode 0) notB () = Inr ([0, 1], ())"
    by code_simp
  have trun: "bfs chain3 (StartNode 0) (traced notB) ((), [])
      = Inr ([0, 1], (), [(0, 0, ()), (1, 1, ())])"
    by code_simp
  have ex: "expand notB = Some (\<lambda>n d st. node_id (heap chain3 n) \<noteq> ''b'')"
    by (simp add: notB_def)
  have b: "\<not> node_id (heap chain3 1) \<noteq> ''b''"
    by code_simp
  have no: "\<not> stops notB 1 1 ()" and af: "after notB 1 1 () = ()"
    by (simp_all add: stops_def after_def notB_def)
  note T = bfs_expand [where w = chain3 and s = "StartNode 0" and opts = notB and st = "()"
      and result = "[0, 1]" and st' = "()"
      and e = "\<lambda>n d st. node_id (heap chain3 n) \<noteq> ''b''" and node = 1 and depth = 1
      and g = "network chain3" and visited = "[0, 1]" and order = "[0]" and queue = "[]"]
  from T [THEN conjunct1, THEN mp, OF run] obtain n s0 rest
    where t: "bfs chain3 (StartNode 0) (traced notB) ((), []) = Inr ([0, 1], (), (n, 0, s0) # rest)"
      and chains: "\<forall>y \<in> set ((n, 0, s0) # rest).
          rtranclp (link (network chain3) notB ((n, 0, s0) # rest)) (n, 0, s0) y"
      and barrier: "\<forall>u d su e. (u, d, su) \<in> set ((n, 0, s0) # rest) \<and> expand notB = Some e
          \<and> \<not> e u d su \<longrightarrow>
          u \<in> set [0, 1]
          \<and> (\<forall>v \<in> set [0, 1]. rtranclp (\<lambda>a c. hasEdge (network chain3) a c \<and> a \<noteq> u) n v)"
    by blast
  from t trun have log: "(n, 0, s0) # rest = [(0, 0, ()), (1, 1, ())]" by simp
  from chains have c: "rtranclp (link (network chain3) notB [(0, 0, ()), (1, 1, ())]) (0, 0, ()) (1, 1, ())"
    unfolding log using log by auto
  from log have n0: "n = 0" by simp
  have "(1, 1, ()) \<in> set ((n, 0, s0) # rest)" unfolding log by simp
  with barrier ex b
  have "(1::ref) \<in> set [0, 1]
      \<and> (\<forall>v \<in> set [0, 1]. rtranclp (\<lambda>a c. hasEdge (network chain3) a c \<and> a \<noteq> 1) n v)"
    by blast
  then have d: "(1::ref) \<in> set [0, 1]"
    and e: "rtranclp (\<lambda>a c. hasEdge (network chain3) a c \<and> a \<noteq> 1) 0 1"
    unfolding n0 by simp_all
  have bb: "\<not> (\<lambda>n d st. node_id (heap chain3 n) \<noteq> ''b'') (1::ref) (1::nat) (after notB 1 1 ())"
    using b by simp
  note T [THEN conjunct2, THEN conjunct1, THEN mp, OF conjI [OF ex bb]]
  with no af have f: "bfsLoop (network chain3) notB [0, 1] [0] [(1, 1)] () = ([0, 1], ())"
    by simp
  from run trun c ex b d e f show ?thesis by (intro conjI) (simp_all only: simp_thms)
qed

text \<open>
  Claim C10. \<open>bfs\<close> started from a node object never throws, whether or not the object is
  a node of the network; when the store has no adjacency entry for the object, the
  result is the sequence of that one object.
\<close>

theorem bfs_start_object:
  "(\<forall>e. bfs w (StartNode n) opts st \<noteq> Inl e)
   \<and> (adjacent (network w) n = None \<longrightarrow> (\<exists>st'. bfs w (StartNode n) opts st = Inr ([n], st')))"
  by (auto simp: bfs_def startNode_def bfsLoop_Cons split: option.splits)


theorem bfs_start_object_witness:
  "adjacent (network oneWay) 7 = None \<and> 7 \<notin> set (nodes (network oneWay))
   \<and> bfs oneWay (StartNode 7) plain () = Inr ([7], ())"
proof -
  have a: "adjacent (network oneWay) 7 = None" and n: "7 \<notin> set (nodes (network oneWay))"
    by code_simp+
  show ?thesis using bfs_start_object [of oneWay 7 plain "()"] a n by simp
qed

end
